theory Spec2Isabelle
  imports Complex_Main "HOL-Library.AList"
begin

section \<open>Data model of Mayur\_Network.py\<close>

text \<open>
  The module holds four classes: Node, OD, Link and Network. Console output (\<open>print\<close>)
  is left out: it does not change the state, except where evaluating its argument
  raises. Exceptions are values of the type \<open>error\<close>; a function that can raise returns
  \<open>error + 'a\<close>, with \<open>Inl\<close> for the exception.
\<close>

datatype error =
    TypeError | KeyError | IndexError | AttributeError | ZeroDivisionError
  | OverflowError | UnboundLocalError | BadFileFormatException

subsection \<open>Python floats\<close>

text \<open>
  A finite float is modelled as a real number and the arithmetic on finite floats as
  the arithmetic on the reals: the rounding of a result to the nearest float is not
  modelled. The range of the floats is: a result above \<open>max_float\<close> in magnitude is an
  infinity (or, for \<open>**\<close>, raises OverflowError), and a product, quotient or power that
  is not above \<open>tiny\<close> in magnitude, half of the least positive float, is zero.

  The parameters of a link, the flows and the demands, which come from the files, are
  finite floats. A node potential is a float that is not NaN (type \<open>pfloat\<close>): the code
  stores a potential only after a comparison that NaN fails. A link cost, the result
  of the formula of CalcCost, is any float (type \<open>pyfloat\<close>) or a complex number (type
  \<open>pynum\<close>).
\<close>

definition max_float :: real where
  "max_float = (2 ^ 53 - 1) * 2 ^ 971"

definition tiny :: real where
  "tiny = 1 / 2 ^ 1075"

datatype pfloat = Finite real | Infinity | NegInfinity

instantiation pfloat :: linorder
begin

fun less_eq_pfloat :: "pfloat \<Rightarrow> pfloat \<Rightarrow> bool" where
  "less_eq_pfloat NegInfinity _ = True"
| "less_eq_pfloat (Finite a) (Finite b) = (a \<le> b)"
| "less_eq_pfloat _ Infinity = True"
| "less_eq_pfloat _ _ = False"

definition less_pfloat :: "pfloat \<Rightarrow> pfloat \<Rightarrow> bool" where
  "less_pfloat x y = (x \<le> y \<and> \<not> y \<le> x)"

instance
proof
  fix x y z :: pfloat
  show "(x < y) = (x \<le> y \<and> \<not> y \<le> x)"
    by (rule less_pfloat_def)
  show "x \<le> x"
    by (cases x) simp_all
  show "x \<le> y \<Longrightarrow> y \<le> z \<Longrightarrow> x \<le> z"
    by (cases x; cases y; cases z) simp_all
  show "x \<le> y \<Longrightarrow> y \<le> x \<Longrightarrow> x = y"
    by (cases x; cases y) simp_all
  show "x \<le> y \<or> y \<le> x"
    by (cases x; cases y) auto
qed

end

lemma pfloat_less [simp]:
  "Finite a < Finite b \<longleftrightarrow> a < b" "Finite a < Infinity" "\<not> Infinity < x"
  "NegInfinity < Finite a" "NegInfinity < Infinity" "\<not> x < NegInfinity"
  by (cases x; auto simp: less_pfloat_def)+

datatype pyfloat = Num pfloat | NaN

datatype pynum = Float pyfloat | Complex pyfloat pyfloat

text \<open>
  A real result brought into the range of the floats: \<open>overflow\<close> for a sum (a sum of
  two floats that is not zero is never below the least positive float), \<open>round_float\<close>
  for a product, a quotient and a power.
\<close>

definition overflow :: "real \<Rightarrow> pfloat" where
  "overflow r = (if max_float < r then Infinity else if r < - max_float then NegInfinity else Finite r)"

definition round_float :: "real \<Rightarrow> pfloat" where
  "round_float r = (if \<bar>r\<bar> \<le> tiny then Finite 0 else overflow r)"

text \<open>The operators \<open>-x\<close>, \<open>x + y\<close>, \<open>x - y\<close> and \<open>x * y\<close> on floats.\<close>

fun pneg :: "pfloat \<Rightarrow> pfloat" where
  "pneg (Finite a) = Finite (- a)"
| "pneg Infinity = NegInfinity"
| "pneg NegInfinity = Infinity"

fun fneg :: "pyfloat \<Rightarrow> pyfloat" where
  "fneg (Num p) = Num (pneg p)"
| "fneg NaN = NaN"

fun fadd :: "pyfloat \<Rightarrow> pyfloat \<Rightarrow> pyfloat" where
  "fadd (Num (Finite a)) (Num (Finite b)) = Num (overflow (a + b))"
| "fadd (Num (Finite a)) (Num Infinity) = Num Infinity"
| "fadd (Num (Finite a)) (Num NegInfinity) = Num NegInfinity"
| "fadd (Num Infinity) (Num (Finite b)) = Num Infinity"
| "fadd (Num NegInfinity) (Num (Finite b)) = Num NegInfinity"
| "fadd (Num Infinity) (Num Infinity) = Num Infinity"
| "fadd (Num NegInfinity) (Num NegInfinity) = Num NegInfinity"
| "fadd (Num Infinity) (Num NegInfinity) = NaN"
| "fadd (Num NegInfinity) (Num Infinity) = NaN"
| "fadd NaN y = NaN"
| "fadd (Num p) NaN = NaN"

definition fsub :: "pyfloat \<Rightarrow> pyfloat \<Rightarrow> pyfloat" where
  "fsub x y = fadd x (fneg y)"

text \<open>An infinity times a finite float: NaN for zero, else the sign of the product.\<close>

definition inf_mul :: "pfloat \<Rightarrow> real \<Rightarrow> pyfloat" where
  "inf_mul p a = (if a = 0 then NaN else if 0 < a then Num p else Num (pneg p))"

fun fmul :: "pyfloat \<Rightarrow> pyfloat \<Rightarrow> pyfloat" where
  "fmul (Num (Finite a)) (Num (Finite b)) = Num (round_float (a * b))"
| "fmul (Num (Finite a)) (Num Infinity) = inf_mul Infinity a"
| "fmul (Num (Finite a)) (Num NegInfinity) = inf_mul NegInfinity a"
| "fmul (Num Infinity) (Num (Finite b)) = inf_mul Infinity b"
| "fmul (Num NegInfinity) (Num (Finite b)) = inf_mul NegInfinity b"
| "fmul (Num Infinity) (Num Infinity) = Num Infinity"
| "fmul (Num NegInfinity) (Num NegInfinity) = Num Infinity"
| "fmul (Num Infinity) (Num NegInfinity) = Num NegInfinity"
| "fmul (Num NegInfinity) (Num Infinity) = Num NegInfinity"
| "fmul NaN y = NaN"
| "fmul (Num p) NaN = NaN"

text \<open>
  The operators \<open>+\<close> and \<open>*\<close> on numbers. With a complex operand the float operand is
  converted to a complex number with the imaginary part 0.0, and the operation is the
  one of the complex numbers, on the two parts.
\<close>

fun parts :: "pynum \<Rightarrow> pyfloat \<times> pyfloat" where
  "parts (Float x) = (x, Num (Finite 0))"
| "parts (Complex re im) = (re, im)"

fun num_add :: "pynum \<Rightarrow> pynum \<Rightarrow> pynum" where
  "num_add (Float x) (Float y) = Float (fadd x y)"
| "num_add v w =
     (case (parts v, parts w) of
        ((a, b), (c, d)) \<Rightarrow> Complex (fadd a c) (fadd b d))"

fun num_mul :: "pynum \<Rightarrow> pynum \<Rightarrow> pynum" where
  "num_mul (Float x) (Float y) = Float (fmul x y)"
| "num_mul v w =
     (case (parts v, parts w) of
        ((a, b), (c, d)) \<Rightarrow> Complex (fsub (fmul a c) (fmul b d)) (fadd (fmul a d) (fmul b c)))"

text \<open>
  \<open>potential + cost\<close> for a cost that is a finite float: the value of
  \<open>fadd (Num p) (Num (Finite c))\<close>.
\<close>

fun padd :: "pfloat \<Rightarrow> real \<Rightarrow> pfloat" where
  "padd (Finite a) c = overflow (a + c)"
| "padd Infinity c = Infinity"
| "padd NegInfinity c = NegInfinity"

text \<open>
  Class Node. The forward and reverse stars hold Link objects; the same objects are the
  values of the Network's \<open>links\<close> dictionary, so a star is a list of references into
  the store of Link objects kept in the Network (\<open>linkObj\<close>). The field \<open>pre\<close> holds
  \<open>None\<close> or the integer ID of a node.
\<close>

record Node =
  ID :: int
  isZone :: bool
  forwardStar :: "nat list"
  reverseStar :: "nat list"
  potential :: pfloat
  pre :: "int option"

record OD =
  origin :: int
  destination :: int
  demand :: real
  shortestPath :: "int list option"

record Link =
  tail :: int
  head :: int
  ID_link :: int
  capacity :: real
  length_link :: real
  freeFlowTime :: real
  alpha :: real
  beta :: real
  speedLimit :: real
  toll :: real
  linkType :: string
  flow :: real
  cost :: "pynum option"

text \<open>
  Class Network. A dictionary is an association list in insertion order (keys distinct);
  \<open>nodes\<close> is the list \<open>self.nodes\<close>, whose entries are \<open>None\<close> until the loader has
  created the node.
\<close>

record Network =
  numZones :: "int option"
  numNodes :: "int option"
  nodes :: "Node option list"
  firstThroughNode :: int
  numLinks :: "int option"
  links :: "((int \<times> int) \<times> nat) list"
  linkObj :: "nat \<Rightarrow> Link"
  tollFactor :: "real option"
  distanceFactor :: "real option"
  totalDemand :: real
  ODpairs :: "(int \<times> (int \<times> OD) list) list"

text \<open>The constructors \<open>__init__\<close> of Node, Link and Network (without file names).\<close>

definition Node_init :: "int \<Rightarrow> bool \<Rightarrow> Node" where
  "Node_init id' isZone' =
     \<lparr>ID = id', isZone = isZone', forwardStar = [], reverseStar = [],
      potential = Infinity, pre = None\<rparr>"

definition Link_init ::
  "int \<Rightarrow> int \<Rightarrow> int \<Rightarrow> real \<Rightarrow> real \<Rightarrow> real \<Rightarrow> real \<Rightarrow> real \<Rightarrow> real \<Rightarrow> real \<Rightarrow> string \<Rightarrow> Link" where
  "Link_init tail' head' ID' capacity' length' freeFlowTime' alpha' beta' speedLimit' toll' linkType' =
     \<lparr>tail = tail', head = head', ID_link = ID', capacity = capacity', length_link = length',
      freeFlowTime = freeFlowTime', alpha = alpha', beta = beta', speedLimit = speedLimit',
      toll = toll', linkType = linkType', flow = 0, cost = None\<rparr>"

definition Network_init :: Network where
  "Network_init =
     \<lparr>numZones = None, numNodes = None, nodes = [], firstThroughNode = 0, numLinks = None,
      links = [], linkObj = (\<lambda>r. Link_init 0 0 0 99999 99999 99999 (15 / 100) 4 99999 0 []),
      tollFactor = None, distanceFactor = None, totalDemand = 0, ODpairs = []\<rparr>"

text \<open>
  Python list indexing \<open>xs[i]\<close>: a negative index counts from the end, an index out of
  range raises IndexError. The result is the position read.
\<close>

definition py_index :: "'a list \<Rightarrow> int \<Rightarrow> error + nat" where
  "py_index xs i =
     (let n = int (length xs)
      in if 0 \<le> i \<and> i < n then Inr (nat i)
         else if - n \<le> i \<and> i < 0 then Inr (nat (n + i))
         else Inl IndexError)"

section \<open>Link.CalcCost\<close>

text \<open>
  Python's \<open>x ** y\<close> for a float x and a finite float y, in the order of the cases of the
  interpreter: \<open>x ** 0.0\<close> is 1.0 for every x; a NaN stays; an infinity gives an infinity
  for a positive y (negative for negative infinity and an odd integer y) and zero for
  a negative y; \<open>0.0 ** y\<close> is 0.0 for a positive y and raises ZeroDivisionError for a
  negative y; a negative base with an exponent that is not an integer gives the complex
  number of modulus \<open>|x| ** y\<close> and argument \<open>pi * y\<close>; a negative base with an integer
  exponent gives \<open>|x| ** y\<close> with the sign of the parity of y. A power above the range
  of the floats raises OverflowError, a power below it is zero.
\<close>

definition py_pow :: "pyfloat \<Rightarrow> real \<Rightarrow> error + pynum" where
  "py_pow x y =
     (if y = 0 then Inr (Float (Num (Finite 1)))
      else case x of
        NaN \<Rightarrow> Inr (Float NaN)
      | Num Infinity \<Rightarrow> Inr (Float (Num (if 0 < y then Infinity else Finite 0)))
      | Num NegInfinity \<Rightarrow>
          Inr (Float (Num (if 0 < y then (if y \<in> \<int> \<and> odd \<lfloor>y\<rfloor> then NegInfinity else Infinity)
                           else Finite 0)))
      | Num (Finite a) \<Rightarrow>
          if a = 0 then (if y < 0 then Inl ZeroDivisionError else Inr (Float (Num (Finite 0))))
          else if max_float < \<bar>a\<bar> powr y then Inl OverflowError
          else (let m = (if \<bar>a\<bar> powr y \<le> tiny then 0 else \<bar>a\<bar> powr y)
                in if 0 < a then Inr (Float (Num (Finite m)))
                   else if y \<in> \<int> then Inr (Float (Num (Finite (if odd \<lfloor>y\<rfloor> then - m else m))))
                   else Inr (Complex (Num (round_float (m * cos (pi * y))))
                                     (Num (round_float (m * sin (pi * y)))))))"

text \<open>Python's \<open>a / b\<close> on finite floats, before the quotient is brought into the range.\<close>

definition py_div :: "real \<Rightarrow> real \<Rightarrow> error + real" where
  "py_div a b = (if b = 0 then Inl ZeroDivisionError else Inr (a / b))"

definition CalcCost :: "real \<Rightarrow> real \<Rightarrow> Link \<Rightarrow> error + Link" where
  "CalcCost distanceFactor' tollFactor' l =
     (case py_div (flow l) (capacity l) of
        Inl e \<Rightarrow> Inl e
      | Inr ratio \<Rightarrow>
          (case py_pow (Num (round_float ratio)) (beta l) of
             Inl e \<Rightarrow> Inl e
           | Inr p \<Rightarrow>
               (let num = (\<lambda>r. Float (Num (Finite r)));
                    travelT = num_mul (num (freeFlowTime l))
                                (num_add (num 1) (num_mul (num (alpha l)) p));
                    DistanceCost = num_mul (num distanceFactor') (num (length_link l));
                    TollCost = num_mul (num tollFactor') (num (toll l))
                in Inr (l\<lparr>cost := Some (num_add (num_add travelT DistanceCost) TollCost)\<rparr>))))"

section \<open>Network.ReadNetworkFile\<close>

text \<open>
  The loader is modelled from the point where the file has been read and split: the
  metadata dictionary returned by \<open>utils.readMetadata\<close> (a module that is not part of
  the repository's sources) is a record of the entries the method reads, each present
  or absent, and every line after the metadata is blank (or a comment), malformed
  (fewer than 11 fields, or field 10 is not ";"), or a data line whose fields have been
  converted by \<open>int\<close> and \<open>float\<close>.
\<close>

record Metadata =
  NUMBER_OF_NODES :: "int option"
  NUMBER_OF_LINKS :: "int option"
  FIRST_THRU_NODE :: "int option"
  NUMBER_OF_ZONES :: "int option"
  TOLL_FACTOR :: "real option"
  DISTANCE_FACTOR :: "real option"

record LinkData =
  d_tail :: int
  d_head :: int
  d_capacity :: real
  d_length :: real
  d_freeFlowTime :: real
  d_alpha :: real
  d_beta :: real
  d_speedLimit :: real
  d_toll :: real
  d_linkType :: string

datatype line = Blank | Malformed | Data LinkData

text \<open>
  The \<open>try\<close> block that reads the metadata: a missing entry (KeyError) ends the block
  with a warning, and the entries after it are not read.
\<close>

definition read_metadata :: "Metadata \<Rightarrow> Network \<Rightarrow> error + Network" where
  "read_metadata md net =
     (case NUMBER_OF_NODES md of
        None \<Rightarrow> Inr net
      | Some n \<Rightarrow>
          (let net1 = net\<lparr>numNodes := Some n, nodes := replicate (nat n) None\<rparr>
           in case NUMBER_OF_LINKS md of
                None \<Rightarrow> Inr net1
              | Some m \<Rightarrow>
                  (let net2 = net1\<lparr>numLinks := Some m\<rparr>
                   in case FIRST_THRU_NODE md of
                        None \<Rightarrow> Inr net2
                      | Some f \<Rightarrow>
                          (let net3 = net2\<lparr>firstThroughNode := f\<rparr>
                           in case NUMBER_OF_ZONES md of
                                None \<Rightarrow> Inr net3
                              | Some z \<Rightarrow>
                                  (case numZones net3 of
                                     Some z0 \<Rightarrow>
                                       if z0 \<noteq> z then Inl BadFileFormatException else Inr net3
                                   | None \<Rightarrow> Inr (net3\<lparr>numZones := Some z\<rparr>))))))"

text \<open>
  One pass of \<open>for i in range(2)\<close>: the end node \<open>data[i]\<close> of the link at reference r is
  created if it is not there, and the link is appended to its forward star (i = 0) or
  its reverse star (i = 1).
\<close>

definition add_end :: "Network \<Rightarrow> nat \<Rightarrow> int \<Rightarrow> bool \<Rightarrow> error + Network" where
  "add_end net r v isTail =
     (let nodeID = v - 1
      in case numNodes net of
           None \<Rightarrow> Inl TypeError
         | Some n \<Rightarrow>
             (case py_index (nodes net) nodeID of
                Inl e \<Rightarrow> Inl e
              | Inr j \<Rightarrow>
                  (case (case nodes net ! j of
                           None \<Rightarrow>
                             (case numZones net of
                                None \<Rightarrow> Inl TypeError
                              | Some z \<Rightarrow> Inr (Node_init (nodeID + 1) (nodeID + 1 \<le> z)))
                         | Some node \<Rightarrow> Inr node) of
                     Inl e \<Rightarrow> Inl e
                   | Inr node \<Rightarrow>
                       Inr (net\<lparr>nodes := (nodes net)[j := Some
                              (if isTail then node\<lparr>forwardStar := forwardStar node @ [r]\<rparr>
                               else node\<lparr>reverseStar := reverseStar node @ [r]\<rparr>)]\<rparr>))))"

text \<open>
  The body of the loop over the lines, for one data line; linkID counts the links
  created so far, and the new Link object gets the reference linkID.
\<close>

definition read_link :: "Network \<Rightarrow> int \<Rightarrow> LinkData \<Rightarrow> error + Network" where
  "read_link net linkID d =
     (let tempLink = Link_init (d_tail d) (d_head d) (linkID + 1) (d_capacity d) (d_length d)
                       (d_freeFlowTime d) (d_alpha d) (d_beta d) (d_speedLimit d) (d_toll d)
                       (d_linkType d)
      in if capacity tempLink < 0 \<or> length_link tempLink < 0 \<or> freeFlowTime tempLink < 0 \<or>
            alpha tempLink < 0 \<or> beta tempLink < 0 \<or> speedLimit tempLink < 0 \<or>
            toll tempLink < 0
         then Inl BadFileFormatException
         else (case (distanceFactor net, tollFactor net) of
                 (Some df, Some tf) \<Rightarrow>
                   (case CalcCost df tf tempLink of
                      Inl e \<Rightarrow> Inl e
                    | Inr l \<Rightarrow>
                        (let net1 = net\<lparr>links := AList.update (d_tail d, d_head d) (nat linkID) (links net),
                                         linkObj := (linkObj net)(nat linkID := l)\<rparr>
                         in case add_end net1 (nat linkID) (d_tail d) True of
                              Inl e \<Rightarrow> Inl e
                            | Inr net2 \<Rightarrow> add_end net2 (nat linkID) (d_head d) False))
               | _ \<Rightarrow> Inl TypeError))"

fun read_lines :: "Network \<Rightarrow> int \<Rightarrow> line list \<Rightarrow> error + (Network \<times> int)" where
  "read_lines net linkID [] = Inr (net, linkID)"
| "read_lines net linkID (Blank # rest) = read_lines net linkID rest"
| "read_lines net linkID (Malformed # rest) = Inl BadFileFormatException"
| "read_lines net linkID (Data d # rest) =
     (case read_link net linkID d of
        Inl e \<Rightarrow> Inl e
      | Inr net' \<Rightarrow> read_lines net' (linkID + 1) rest)"

text \<open>
  The method: metadata, factors, the lines, and the verifications at the end, of which
  the count of the zones reads \<open>isZone\<close> of every entry of \<open>self.nodes\<close> (AttributeError
  on an entry that is still \<open>None\<close>).
\<close>

definition ReadNetworkFile :: "Network \<Rightarrow> Metadata \<Rightarrow> line list \<Rightarrow> error + Network" where
  "ReadNetworkFile net md fileLines =
     (case read_metadata md net of
        Inl e \<Rightarrow> Inl e
      | Inr net1 \<Rightarrow>
          (let net2 = net1\<lparr>tollFactor := Some (case TOLL_FACTOR md of None \<Rightarrow> 0 | Some t \<Rightarrow> t),
                           distanceFactor := Some (case DISTANCE_FACTOR md of None \<Rightarrow> 0 | Some t \<Rightarrow> t)\<rparr>
           in case read_lines net2 0 fileLines of
                Inl e \<Rightarrow> Inl e
              | Inr (net3, linkID) \<Rightarrow>
                  (case those (nodes net3) of
                     None \<Rightarrow> Inl AttributeError
                   | Some ns \<Rightarrow>
                       Inr (net3\<lparr>numLinks := Some linkID,
                                 numZones := Some (int (length (filter isZone ns)))\<rparr>))))"

section \<open>Network.ShortestPath\<close>

definition ResetPotential :: "Node \<Rightarrow> Node" where
  "ResetPotential n = n\<lparr>potential := Infinity, pre := None\<rparr>"

text \<open>\<open>potentials.index(minPotential)\<close>: the first position holding the value.\<close>

fun index_of :: "'a \<Rightarrow> 'a list \<Rightarrow> nat" where
  "index_of x [] = 0"
| "index_of x (y # ys) = (if x = y then 0 else Suc (index_of x ys))"

text \<open>\<open>scanList.pop(pos)\<close>: the list without the element at position pos.\<close>

definition pop :: "'a list \<Rightarrow> nat \<Rightarrow> 'a list" where
  "pop xs pos = take pos xs @ drop (Suc pos) xs"

text \<open>The positions read by \<open>[self.nodes[i] for i in scanList]\<close>; the first bad index raises.\<close>

fun positions :: "'a list \<Rightarrow> int list \<Rightarrow> error + nat list" where
  "positions ns [] = Inr []"
| "positions ns (i # is) =
     (case py_index ns i of
        Inl e \<Rightarrow> Inl e
      | Inr j \<Rightarrow> (case positions ns is of Inl e \<Rightarrow> Inl e | Inr js \<Rightarrow> Inr (j # js)))"

text \<open>
  One pass of the body of \<open>for link in currentNode.forwardStar\<close>, for the link object at
  reference r and the current node at position cur. The current node's potential is
  read from the node list at each pass, as the code reads the attribute.
\<close>

definition relax :: "(nat \<Rightarrow> Link) \<Rightarrow> nat \<Rightarrow> Node list \<Rightarrow> nat \<Rightarrow> error + Node list" where
  "relax h cur ns r =
     (case py_index ns (head (h r) - 1) of
        Inl e \<Rightarrow> Inl e
      | Inr j \<Rightarrow>
          (case cost (h r) of
             None \<Rightarrow> Inl TypeError
           | Some (Complex re im) \<Rightarrow> Inl TypeError
           | Some (Float c) \<Rightarrow>
               (case fadd (Num (potential (ns ! cur))) c of
                  NaN \<Rightarrow> Inr ns
                | Num s \<Rightarrow>
                    (if potential (ns ! j) > s
                     then Inr (ns[j := (ns ! j)\<lparr>potential := s, pre := Some (ID (ns ! cur))\<rparr>])
                     else Inr ns))))"

fun relax_all :: "(nat \<Rightarrow> Link) \<Rightarrow> nat \<Rightarrow> nat list \<Rightarrow> Node list \<Rightarrow> error + Node list" where
  "relax_all h cur [] ns = Inr ns"
| "relax_all h cur (r # rs) ns =
     (case relax h cur ns r of Inl e \<Rightarrow> Inl e | Inr ns' \<Rightarrow> relax_all h cur rs ns')"

text \<open>The position in scanList of the node chosen by one pass of the main loop.\<close>

definition choose_pos :: "Node list \<Rightarrow> nat list \<Rightarrow> nat" where
  "choose_pos ns js =
     (let potentials = map (\<lambda>j. potential (ns ! j)) js;
          minPotential = min_list potentials
      in index_of minPotential potentials)"

lemma index_of_less: "x \<in> set xs \<Longrightarrow> index_of x xs < length xs"
  by (induction xs) auto

lemma min_list_in_set: "xs \<noteq> [] \<Longrightarrow> min_list xs \<in> set (xs :: 'a::linorder list)"
  by (simp add: min_list_Min)

lemma choose_pos_less: "js \<noteq> [] \<Longrightarrow> choose_pos ns js < length js"
  using index_of_less [OF min_list_in_set, of "map (\<lambda>j. potential (ns ! j)) js"]
  by (simp add: choose_pos_def Let_def)

lemma positions_length: "positions ns is = Inr js \<Longrightarrow> length js = length is"
  by (induction "is" arbitrary: js) (auto split: sum.splits)

text \<open>The loop \<open>while scanList != []\<close>.\<close>

function SP_loop :: "(nat \<Rightarrow> Link) \<Rightarrow> Node list \<Rightarrow> int list \<Rightarrow> error + Node list" where
  "SP_loop h ns [] = Inr ns"
| "SP_loop h ns (i # is) =
     (case positions ns (i # is) of
        Inl e \<Rightarrow> Inl e
      | Inr js \<Rightarrow>
          (let pos = choose_pos ns js;
               nodeIndex = js ! pos
           in case relax_all h nodeIndex (forwardStar (ns ! nodeIndex)) ns of
                Inl e \<Rightarrow> Inl e
              | Inr ns' \<Rightarrow> SP_loop h ns' (pop (i # is) pos)))"
  by pat_completeness auto

termination
proof (relation "measure (\<lambda>(h, ns, scanList). length scanList)")
  show "wf (measure (\<lambda>(h, ns, scanList). length scanList))"
    by simp
next
  fix h :: "nat \<Rightarrow> Link" and ns ns' :: "Node list" and i :: int and "is" :: "int list"
    and js :: "nat list" and pos nodeIndex :: nat
  assume p: "positions ns (i # is) = Inr js" and c: "pos = choose_pos ns js"
  have len: "length js = Suc (length is)"
    using positions_length [OF p] by simp
  then have "js \<noteq> []"
    by auto
  then have "pos < Suc (length is)"
    using choose_pos_less [of js ns] c len by simp
  then show "((h, ns', pop (i # is) pos), (h, ns, i # is))
      \<in> measure (\<lambda>(h, ns, scanList). length scanList)"
    by (simp add: pop_def)
qed

declare SP_loop.simps [simp del]

text \<open>
  \<open>range(self.firstThroughNode - 1, self.numNodes)\<close>, and the whole method. The method
  returns the tuple of (potential, pre) of every node; the nodes keep their new state.
\<close>

definition table :: "Node list \<Rightarrow> (pfloat \<times> int option) list" where
  "table ns = map (\<lambda>node. (potential node, pre node)) ns"

definition ShortestPath ::
  "Network \<Rightarrow> int \<Rightarrow> error + (Network \<times> (pfloat \<times> int option) list)" where
  "ShortestPath net origin' =
     (case those (nodes net) of
        None \<Rightarrow> Inl AttributeError
      | Some ns \<Rightarrow>
          (let ns0 = map ResetPotential ns
           in case py_index ns0 (origin' - 1) of
                Inl e \<Rightarrow> Inl e
              | Inr oi \<Rightarrow>
                  (let ns1 = ns0[oi := (ns0 ! oi)\<lparr>potential := Finite 0\<rparr>]
                   in case numNodes net of
                        None \<Rightarrow> Inl TypeError
                      | Some n \<Rightarrow>
                          (case SP_loop (linkObj net) ns1 [firstThroughNode net - 1 .. n - 1] of
                             Inl e \<Rightarrow> Inl e
                           | Inr ns' \<Rightarrow> Inr (net\<lparr>nodes := map Some ns'\<rparr>, table ns')))))"

section \<open>Network.AON\<close>

text \<open>
  The loop \<open>while SPath[x-1][1] is not None\<close> of AON, for one OD pair: it walks the
  predecessors recorded in SPath from the destination and adds the demand to the entry
  of every link passed. A missing key raises KeyError. The loop need not end (the
  predecessors can form a cycle), so it is a partial function: \<open>None\<close> is "does not
  return".
\<close>

partial_function (option) trace ::
  "(pfloat \<times> int option) list \<Rightarrow> real \<Rightarrow> int \<Rightarrow> ((int \<times> int) \<times> real) list
     \<Rightarrow> (error + ((int \<times> int) \<times> real) list) option" where
  "trace SPath demands x' AON_flow =
     (case py_index SPath (x' - 1) of
        Inl e \<Rightarrow> Some (Inl e)
      | Inr j \<Rightarrow>
          (case snd (SPath ! j) of
             None \<Rightarrow> Some (Inr AON_flow)
           | Some p \<Rightarrow>
               (case map_of AON_flow (p, x') of
                  None \<Rightarrow> Some (Inl KeyError)
                | Some v \<Rightarrow> trace SPath demands p (AList.update (p, x') (v + demands) AON_flow))))"

text \<open>\<open>for d in self.ODpairs[o]\<close>, on the table of origin o.\<close>

fun AON_dests ::
  "(pfloat \<times> int option) list \<Rightarrow> (int \<times> OD) list \<Rightarrow> ((int \<times> int) \<times> real) list
     \<Rightarrow> (error + ((int \<times> int) \<times> real) list) option" where
  "AON_dests SPath [] AON_flow = Some (Inr AON_flow)"
| "AON_dests SPath ((d, od) # rest) AON_flow =
     (case trace SPath (demand od) d AON_flow of
        None \<Rightarrow> None
      | Some (Inl e) \<Rightarrow> Some (Inl e)
      | Some (Inr AON_flow') \<Rightarrow> AON_dests SPath rest AON_flow')"

text \<open>\<open>for o in self.ODpairs\<close>: one shortest-path search for each origin.\<close>

fun AON_origins ::
  "Network \<Rightarrow> (int \<times> (int \<times> OD) list) list \<Rightarrow> ((int \<times> int) \<times> real) list
     \<Rightarrow> (error + Network \<times> ((int \<times> int) \<times> real) list) option" where
  "AON_origins net [] AON_flow = Some (Inr (net, AON_flow))"
| "AON_origins net ((o', dests) # rest) AON_flow =
     (case ShortestPath net o' of
        Inl e \<Rightarrow> Some (Inl e)
      | Inr (net', SPath) \<Rightarrow>
          (case AON_dests SPath dests AON_flow of
             None \<Rightarrow> None
           | Some (Inl e) \<Rightarrow> Some (Inl e)
           | Some (Inr AON_flow') \<Rightarrow> AON_origins net' rest AON_flow'))"

text \<open>
  The method: the result starts as \<open>dict(zip(ij, [0]*len(ij)))\<close> over the keys of
  \<open>self.links\<close>. It returns the new state of the network (ShortestPath has changed the
  nodes) and the dictionary.
\<close>

definition AON :: "Network \<Rightarrow> (error + Network \<times> ((int \<times> int) \<times> real) list) option" where
  "AON net = AON_origins net (ODpairs net) (map (\<lambda>(ij, r). (ij, 0)) (links net))"

section \<open>Network.UE\<close>

text \<open>
  The first loop of UE, \<open>for ij in self.links: self.links[ij].flow = flow_AON(ij)\<close>:
  \<open>flow_AON\<close> is a dictionary, and calling it raises TypeError at the first link.
\<close>

fun UE_assign ::
  "Network \<Rightarrow> ((int \<times> int) \<times> real) list \<Rightarrow> ((int \<times> int) \<times> nat) list \<Rightarrow> error + Network" where
  "UE_assign net flow_AON [] = Inr net"
| "UE_assign net flow_AON (ij # rest) = Inl TypeError"

text \<open>
  The inner loop \<open>for ij in self.links\<close> of the main loop. When move is 0 the pass does
  nothing more for the link; otherwise it stores move as the link's flow and then
  evaluates \<open>counter\<close>, a local variable that is never assigned before: UnboundLocalError.
\<close>

fun UE_moves ::
  "Network \<Rightarrow> ((int \<times> int) \<times> real) list \<Rightarrow> int \<Rightarrow> ((int \<times> int) \<times> nat) list \<Rightarrow> error + Network" where
  "UE_moves net flow_AON IteCou [] = Inr net"
| "UE_moves net flow_AON IteCou ((ij, r) # rest) =
     (let C_flow = flow (linkObj net r)
      in case map_of flow_AON ij of
           None \<Rightarrow> Inl KeyError
         | Some a \<Rightarrow>
             (case py_div (a - C_flow) (real_of_int IteCou) of
                Inl e \<Rightarrow> Inl e
              | Inr q \<Rightarrow>
                  (let move = C_flow + q
                   in if move = 0 then UE_moves net flow_AON IteCou rest
                      else Inl UnboundLocalError)))"

text \<open>
  The outer loop \<open>for ij in self.links\<close> of the main loop: the cost of one link is
  recomputed (with the default factors 0 and 0), then AON and the inner loop run.
\<close>

fun UE_pass :: "Network \<Rightarrow> int \<Rightarrow> ((int \<times> int) \<times> nat) list \<Rightarrow> (error + Network) option" where
  "UE_pass net IteCou [] = Some (Inr net)"
| "UE_pass net IteCou ((ij, r) # rest) =
     (case CalcCost 0 0 (linkObj net r) of
        Inl e \<Rightarrow> Some (Inl e)
      | Inr l' \<Rightarrow>
          (case AON (net\<lparr>linkObj := (linkObj net)(r := l')\<rparr>) of
             None \<Rightarrow> None
           | Some (Inl e) \<Rightarrow> Some (Inl e)
           | Some (Inr (net', flow_AON)) \<Rightarrow>
               (case UE_moves net' flow_AON IteCou (links net') of
                  Inl e \<Rightarrow> Some (Inl e)
                | Inr net'' \<Rightarrow> UE_pass net'' IteCou rest)))"

text \<open>
  The loop \<open>while (converge > tolerance)\<close>. The body assigns neither \<open>converge\<close> nor
  \<open>IteCou\<close>; there is no bound on the number of passes.
\<close>

partial_function (option) UE_loop ::
  "Network \<Rightarrow> real \<Rightarrow> int \<Rightarrow> real \<Rightarrow> (error + Network) option" where
  "UE_loop net converge IteCou tolerance =
     (if converge > tolerance
      then (case UE_pass net IteCou (links net) of
              None \<Rightarrow> None
            | Some (Inl e) \<Rightarrow> Some (Inl e)
            | Some (Inr net') \<Rightarrow> UE_loop net' converge IteCou tolerance)
      else Some (Inr net))"

definition UE :: "Network \<Rightarrow> real \<Rightarrow> (error + Network) option" where
  "UE net tolerance =
     (case AON net of
        None \<Rightarrow> None
      | Some (Inl e) \<Rightarrow> Some (Inl e)
      | Some (Inr (net', flow_AON)) \<Rightarrow>
          (case UE_assign net' flow_AON (links net') of
             Inl e \<Rightarrow> Some (Inl e)
           | Inr net'' \<Rightarrow> UE_loop net'' 5 1 tolerance))"

section \<open>Notions used in the statements\<close>

text \<open>
  Reachability under the through-node restriction, on node positions (position i holds
  the node of ID i + 1): a path starts at the origin and may go on from a node that is
  the origin or is not below the first through node, along a link of its forward star.
\<close>

inductive reachable :: "Network \<Rightarrow> nat \<Rightarrow> nat \<Rightarrow> bool" for net :: Network and oi :: nat where
  origin: "reachable net oi oi"
| link: "reachable net oi u \<Longrightarrow> u < length (nodes net) \<Longrightarrow> nodes net ! u = Some node
          \<Longrightarrow> u = oi \<or> firstThroughNode net - 1 \<le> int u
          \<Longrightarrow> r \<in> set (forwardStar node)
          \<Longrightarrow> py_index (nodes net) (head (linkObj net r) - 1) = Inr v
          \<Longrightarrow> reachable net oi v"

text \<open>
  The nodes the loop of AON visits for one OD pair: \<open>walk SPath d y\<close> says that the
  walk over the predecessors recorded in SPath that starts at node d ends at node y,
  the first node met that has no predecessor.
\<close>

inductive walk :: "(pfloat \<times> int option) list \<Rightarrow> int \<Rightarrow> int \<Rightarrow> bool" for SPath :: "(pfloat \<times> int option) list" where
  stop: "py_index SPath (x' - 1) = Inr j \<Longrightarrow> snd (SPath ! j) = None \<Longrightarrow> walk SPath x' x'"
| step: "py_index SPath (x' - 1) = Inr j \<Longrightarrow> snd (SPath ! j) = Some p \<Longrightarrow> walk SPath p y
          \<Longrightarrow> walk SPath x' y"

text \<open>
  A network as the two loaders build it from well-formed files: every node is created,
  the node at position u has the ID u + 1, every link of a forward star has the owner
  of the star as tail, a head among the nodes, a cost that is a finite float and not
  negative, and its key in \<open>links\<close>; the first through node is at least 1 and the OD
  pairs join nodes of the network.
\<close>

definition good_star :: "(nat \<Rightarrow> Link) \<Rightarrow> Node list \<Rightarrow> bool" where
  "good_star h ns \<longleftrightarrow>
     (\<forall>u < length ns. ID (ns ! u) = int u + 1 \<and>
        (\<forall>r \<in> set (forwardStar (ns ! u)).
           (\<exists>c. cost (h r) = Some (Float (Num (Finite c))) \<and> 0 \<le> c) \<and> 1 \<le> head (h r) \<and> head (h r) \<le> int (length ns)))"

definition ods_in_range :: "nat \<Rightarrow> (int \<times> (int \<times> OD) list) list \<Rightarrow> bool" where
  "ods_in_range n ods \<longleftrightarrow>
     (\<forall>(o', dests) \<in> set ods. 1 \<le> o' \<and> o' \<le> int n \<and> (\<forall>(d, od) \<in> set dests. 1 \<le> d \<and> d \<le> int n))"

definition wf_network :: "Network \<Rightarrow> bool" where
  "wf_network net =
     (case those (nodes net) of
        None \<Rightarrow> False
      | Some ns \<Rightarrow>
          numNodes net = Some (int (length ns)) \<and> 1 \<le> firstThroughNode net \<and>
          good_star (linkObj net) ns \<and>
          (\<forall>u < length ns. \<forall>r \<in> set (forwardStar (ns ! u)).
               tail (linkObj net r) = int u + 1 \<and>
               (int u + 1, head (linkObj net r)) \<in> fst ` set (links net)) \<and>
          ods_in_range (length ns) (ODpairs net))"

text \<open>
  The invariant of the main loop of ShortestPath on a well-formed network with costs
  that are not negative. D lists the nodes scanned so far, in the order of scanning,
  and js the nodes still in the scan list. The potentials of the scanned nodes do not
  decrease along D and are at most those of the nodes still to scan, so a scanned node
  is never relaxed again; the predecessor of a node is a scanned node with a finite
  potential and a link into the node, scanned before the node itself; a node with a
  finite potential is the origin or has a predecessor.
\<close>

definition pred_ok :: "(nat \<Rightarrow> Link) \<Rightarrow> Node list \<Rightarrow> nat list \<Rightarrow> Node list \<Rightarrow> nat \<Rightarrow> int \<Rightarrow> bool" where
  "pred_ok h ns0 D m v p \<longleftrightarrow>
     (\<exists>k < length D. p = int (D ! k) + 1 \<and> potential (m ! (D ! k)) \<noteq> Infinity \<and>
        (\<exists>r \<in> set (forwardStar (ns0 ! (D ! k))). head (h r) = int v + 1) \<and>
        (\<forall>k' < length D. D ! k' = v \<longrightarrow> k < k'))"

definition dijkstra_inv ::
  "(nat \<Rightarrow> Link) \<Rightarrow> Node list \<Rightarrow> nat \<Rightarrow> nat list \<Rightarrow> nat list \<Rightarrow> Node list \<Rightarrow> bool" where
  "dijkstra_inv h ns0 oi D js m \<longleftrightarrow>
     map ResetPotential m = map ResetPotential ns0 \<and>
     distinct (D @ js) \<and> set (D @ js) \<subseteq> {..<length ns0} \<and>
     (\<forall>k' < length D. \<forall>k \<le> k'. potential (m ! (D ! k)) \<le> potential (m ! (D ! k'))) \<and>
     (\<forall>s \<in> set D. \<forall>w \<in> set js. potential (m ! s) \<le> potential (m ! w)) \<and>
     potential (m ! oi) = Finite 0 \<and> pre (m ! oi) = None \<and>
     (\<forall>w < length ns0. Finite 0 \<le> potential (m ! w)) \<and>
     (\<forall>w < length ns0. potential (m ! w) \<noteq> Infinity \<longrightarrow> w = oi \<or> pre (m ! w) \<noteq> None) \<and>
     (\<forall>v < length ns0. \<forall>p. pre (m ! v) = Some p \<longrightarrow> pred_ok h ns0 D m v p)"

text \<open>A link cost that is not negative: a float from 0.0 to infinity.\<close>

fun nonneg_cost :: "pynum \<Rightarrow> bool" where
  "nonneg_cost (Float (Num q)) = (Finite 0 \<le> q)"
| "nonneg_cost _ = False"

text \<open>
  A real number that an operation on floats gives as it is: zero, or a number between
  the least and the greatest magnitude of the floats. \<open>CalcCost_in_range\<close> says so of
  the result of every operation of the formula of CalcCost, in the order in which the
  code evaluates them.
\<close>

definition in_range :: "real \<Rightarrow> bool" where
  "in_range r \<longleftrightarrow> (r = 0 \<or> tiny < \<bar>r\<bar>) \<and> \<bar>r\<bar> \<le> max_float"

definition CalcCost_in_range :: "real \<Rightarrow> real \<Rightarrow> Link \<Rightarrow> bool" where
  "CalcCost_in_range distanceFactor' tollFactor' l =
     (let ratio = flow l / capacity l;
          p = (if beta l = 0 then 1 else ratio powr beta l);
          travelT = freeFlowTime l * (1 + alpha l * p);
          DistanceCost = distanceFactor' * length_link l;
          TollCost = tollFactor' * toll l
      in in_range ratio \<and> in_range p \<and> in_range (alpha l * p) \<and> in_range (1 + alpha l * p) \<and>
         in_range travelT \<and> in_range DistanceCost \<and> in_range TollCost \<and>
         in_range (travelT + DistanceCost) \<and> in_range (travelT + DistanceCost + TollCost))"

section \<open>Example networks\<close>

text \<open>
  Two nodes, both zones, and one link from node 1 to node 2 (capacity 100, free-flow
  time 10, alpha 0.15, beta 4), with one OD pair from 1 to 2 of demand 50, as the
  loader builds it; the first through node is a parameter.
\<close>

definition link_1_2 :: Link where
  "link_1_2 = (Link_init 1 2 1 100 1 10 (15 / 100) 4 60 0 ''1'')\<lparr>cost := Some (Float (Num (Finite 10)))\<rparr>"

definition od_1_2 :: OD where
  "od_1_2 = \<lparr>origin = 1, destination = 2, demand = 50, shortestPath = None\<rparr>"

definition one_link :: "int \<Rightarrow> Network" where
  "one_link ftn =
     \<lparr>numZones = Some 2, numNodes = Some 2,
      nodes = [Some ((Node_init 1 True)\<lparr>forwardStar := [0]\<rparr>),
               Some ((Node_init 2 True)\<lparr>reverseStar := [0]\<rparr>)],
      firstThroughNode = ftn, numLinks = Some 1, links = [((1, 2), 0)],
      linkObj = (linkObj Network_init)(0 := link_1_2),
      tollFactor = Some 0, distanceFactor = Some 0, totalDemand = 50,
      ODpairs = [(1, [(2, od_1_2)])]\<rparr>"

definition one_link_file :: "line list" where
  "one_link_file =
     [Blank,
      Data \<lparr>d_tail = 1, d_head = 2, d_capacity = 100, d_length = 1, d_freeFlowTime = 10,
            d_alpha = 15 / 100, d_beta = 4, d_speedLimit = 60, d_toll = 0, d_linkType = ''1''\<rparr>]"

definition one_link_metadata :: "int \<Rightarrow> Metadata" where
  "one_link_metadata ftn =
     \<lparr>NUMBER_OF_NODES = Some 2, NUMBER_OF_LINKS = Some 1, FIRST_THRU_NODE = Some ftn,
      NUMBER_OF_ZONES = Some 2, TOLL_FACTOR = None, DISTANCE_FACTOR = None\<rparr>"

text \<open>The same two nodes with the link from node 2 to node 1: node 2 cannot be reached from 1.\<close>

definition link_2_1 :: Link where
  "link_2_1 = (Link_init 2 1 1 100 1 10 (15 / 100) 4 60 0 ''1'')\<lparr>cost := Some (Float (Num (Finite 10)))\<rparr>"

definition back_link :: Network where
  "back_link =
     \<lparr>numZones = Some 2, numNodes = Some 2,
      nodes = [Some ((Node_init 1 True)\<lparr>reverseStar := [0]\<rparr>),
               Some ((Node_init 2 True)\<lparr>forwardStar := [0]\<rparr>)],
      firstThroughNode = 1, numLinks = Some 1, links = [((2, 1), 0)],
      linkObj = (linkObj Network_init)(0 := link_2_1),
      tollFactor = Some 0, distanceFactor = Some 0, totalDemand = 50,
      ODpairs = [(1, [(2, od_1_2)])]\<rparr>"

text \<open>Data lines with a capacity of 0 and with a negative capacity.\<close>

definition zero_capacity :: LinkData where
  "zero_capacity =
     \<lparr>d_tail = 1, d_head = 2, d_capacity = 0, d_length = 1, d_freeFlowTime = 10,
      d_alpha = 15 / 100, d_beta = 4, d_speedLimit = 60, d_toll = 0, d_linkType = ''1''\<rparr>"

definition negative_capacity :: LinkData where
  "negative_capacity =
     \<lparr>d_tail = 2, d_head = 1, d_capacity = - 100, d_length = 1, d_freeFlowTime = 10,
      d_alpha = 15 / 100, d_beta = 4, d_speedLimit = 60, d_toll = 0, d_linkType = ''1''\<rparr>"

text \<open>The one-link network and the back-link network after the search from node 1.\<close>

definition one_link_searched :: Network where
  "one_link_searched =
     (one_link 1)\<lparr>nodes := [Some ((Node_init 1 True)\<lparr>forwardStar := [0], potential := Finite 0\<rparr>),
                           Some ((Node_init 2 True)\<lparr>reverseStar := [0], potential := Finite 10,
                                                     pre := Some 1\<rparr>)]\<rparr>"

definition back_link_searched :: Network where
  "back_link_searched =
     back_link\<lparr>nodes := [Some ((Node_init 1 True)\<lparr>reverseStar := [0], potential := Finite 0\<rparr>),
                         Some ((Node_init 2 True)\<lparr>forwardStar := [0]\<rparr>)]\<rparr>"

lemmas example_defs =
  link_1_2_def od_1_2_def one_link_def one_link_file_def one_link_metadata_def
  link_2_1_def back_link_def zero_capacity_def negative_capacity_def
  Node_init_def Link_init_def Network_init_def

lemmas eval_defs =
  py_index_def py_div_def py_pow_def CalcCost_def ResetPotential_def pop_def choose_pos_def
  round_float_def overflow_def max_float_def tiny_def relax_def table_def ShortestPath_def SP_loop.simps upto.simps trace.simps AON_def Let_def

lemma one_link_loaded:
  "ReadNetworkFile Network_init (one_link_metadata ftn) one_link_file
     = Inr ((one_link ftn)\<lparr>totalDemand := 0, ODpairs := []\<rparr>)"
  by (simp add: ReadNetworkFile_def read_metadata_def read_link_def add_end_def
      example_defs eval_defs eval_nat_numeral)

section \<open>Link.CalcCost: the cost formula\<close>

lemma round_float_in_range: "in_range r \<Longrightarrow> round_float r = Finite r"
  by (auto simp: in_range_def round_float_def overflow_def)

lemma overflow_in_range: "in_range r \<Longrightarrow> overflow r = Finite r"
  by (auto simp: in_range_def overflow_def)

lemma max_float_ge: "2 ^ 1000 \<le> max_float"
  by (simp add: max_float_def)

lemma tiny_le: "tiny \<le> 1 / 2 ^ 1000"
  by (simp add: tiny_def)

lemma in_range_small: "r = 0 \<or> 1 / 2 ^ 1000 < \<bar>r\<bar> \<Longrightarrow> \<bar>r\<bar> \<le> 2 ^ 1000 \<Longrightarrow> in_range r"
  using max_float_ge tiny_le by (auto simp: in_range_def)

lemma py_pow_in_range:
  assumes "0 \<le> x" and "0 < x \<or> 0 \<le> y" and "in_range (if y = 0 then 1 else x powr y)"
  shows "py_pow (Num (Finite x)) y = Inr (Float (Num (Finite (if y = 0 then 1 else x powr y))))"
proof (cases "y = 0")
  case True
  then show ?thesis
    by (simp add: py_pow_def)
next
  case y: False
  show ?thesis
  proof (cases "x = 0")
    case True
    with y assms(2) show ?thesis
      by (simp add: py_pow_def)
  next
    case False
    with assms(1) have x: "0 < x"
      by simp
    then have "0 < x powr y"
      by simp
    with assms(3) y have "tiny < x powr y" and "x powr y \<le> max_float"
      by (auto simp: in_range_def)
    with x y show ?thesis
      by (simp add: py_pow_def)
  qed
qed

text \<open>
  Outcomes of CalcCost on a link with a positive capacity other than a finite cost: a
  power above the range of the floats raises OverflowError; a quotient above the range
  is an infinity, and the cost is then an infinity or, with alpha zero, NaN; a negative
  flow with an exponent that is not an integer gives a complex cost.
\<close>

lemma CalcCost_overflow:
  "CalcCost 0 0 (link_1_2\<lparr>capacity := 1, flow := 10 ^ 200, beta := 2\<rparr>) = Inl OverflowError"
  by (simp add: example_defs CalcCost_def py_div_def py_pow_def round_float_def overflow_def
      tiny_def max_float_def)

lemma CalcCost_infinity:
  "CalcCost 0 0 (link_1_2\<lparr>capacity := 1 / 10 ^ 308, flow := 10 ^ 308\<rparr>)
     = Inr (link_1_2\<lparr>capacity := 1 / 10 ^ 308, flow := 10 ^ 308,
                     cost := Some (Float (Num Infinity))\<rparr>)"
  by (simp add: example_defs CalcCost_def py_div_def py_pow_def round_float_def overflow_def
      tiny_def max_float_def inf_mul_def)

lemma CalcCost_nan:
  "CalcCost 0 0 (link_1_2\<lparr>capacity := 1 / 10 ^ 308, flow := 10 ^ 308, alpha := 0\<rparr>)
     = Inr (link_1_2\<lparr>capacity := 1 / 10 ^ 308, flow := 10 ^ 308, alpha := 0,
                     cost := Some (Float NaN)\<rparr>)"
  by (simp add: example_defs CalcCost_def py_div_def py_pow_def round_float_def overflow_def
      tiny_def max_float_def inf_mul_def)

lemma half_not_integer: "(1::real) / 2 \<notin> \<int>"
proof
  assume "(1::real) / 2 \<in> \<int>"
  then obtain k :: int where "(1::real) / 2 = of_int k"
    by (auto elim: Ints_cases)
  then have "(1::real) = of_int (2 * k)"
    by simp
  then have "(1::int) = 2 * k"
    using of_int_eq_iff [where ?'a = real] by (metis of_int_1)
  then show False
    by presburger
qed

lemma py_pow_complex:
  "py_pow (Num (Finite (- 4))) (1 / 2) = Inr (Complex (Num (Finite 0)) (Num (Finite 2)))"
proof -
  have "(4::real) powr (1 / 2) = 2"
    using powr_half_sqrt [of 4] by simp
  then show ?thesis
    using half_not_integer
    by (simp add: py_pow_def round_float_def overflow_def tiny_def max_float_def)
qed

lemma CalcCost_complex:
  "CalcCost 0 0 (link_1_2\<lparr>flow := - 400, beta := 1 / 2\<rparr>)
     = Inr (link_1_2\<lparr>flow := - 400, beta := 1 / 2,
                     cost := Some (Complex (Num (Finite 10)) (Num (Finite 3)))\<rparr>)"
  by (simp add: example_defs CalcCost_def py_div_def py_pow_complex round_float_def overflow_def
      tiny_def max_float_def fsub_def)

text \<open>
  Claim C5 says that for every link with a positive capacity CalcCost sets the cost to
  the formula. With flow 0 and a negative beta the power raises ZeroDivisionError, and
  a power above the range of the floats raises OverflowError. Amended claim C5: for a
  link (its parameters and flow finite floats, as are the two weighting factors) with
  capacity > 0, flow \<ge> 0, and flow > 0 or beta \<ge> 0, such that no operation of the
  formula leaves the range of the floats, CalcCost raises nothing and changes nothing
  but the stored cost, which becomes
  freeFlowTime * (1 + alpha * (flow / capacity) ^ beta) + distanceFactor * length
  + tollFactor * toll, a float; the power is the real power, with x ^ 0 = 1, and the
  rounding of the operations is not modelled.
\<close>

theorem CalcCost_sets_cost:
  assumes "0 < capacity l" and "0 \<le> flow l" and "0 < flow l \<or> 0 \<le> beta l"
    and "CalcCost_in_range df tf l"
  shows "CalcCost df tf l =
           Inr (l\<lparr>cost := Some (Float (Num (Finite (freeFlowTime l *
                     (1 + alpha l * (if beta l = 0 then 1 else (flow l / capacity l) powr beta l))
                   + df * length_link l + tf * toll l))))\<rparr>)"
proof -
  let ?ratio = "flow l / capacity l"
  let ?p = "if beta l = 0 then 1 else ?ratio powr beta l"
  let ?t = "freeFlowTime l * (1 + alpha l * ?p)"
  from assms(4) have r: "in_range ?ratio" and p: "in_range ?p" and ap: "in_range (alpha l * ?p)"
    and one: "in_range (1 + alpha l * ?p)" and t: "in_range ?t"
    and d: "in_range (df * length_link l)" and c: "in_range (tf * toll l)"
    and td: "in_range (?t + df * length_link l)"
    and tdc: "in_range (?t + df * length_link l + tf * toll l)"
    by (simp_all add: CalcCost_in_range_def Let_def)
  have ratio: "0 \<le> ?ratio" "0 < ?ratio \<or> 0 \<le> beta l"
    using assms(1-3) by auto
  have pow: "py_pow (Num (round_float ?ratio)) (beta l) = Inr (Float (Num (Finite ?p)))"
    unfolding round_float_in_range [OF r] using ratio p by (rule py_pow_in_range)
  have "CalcCost df tf l =
          Inr (l\<lparr>cost := Some (Float (Num (overflow (?t + df * length_link l + tf * toll l))))\<rparr>)"
    using assms(1) pow
    by (simp add: CalcCost_def py_div_def Let_def round_float_in_range [OF ap]
        overflow_in_range [OF one] round_float_in_range [OF t] round_float_in_range [OF d]
        round_float_in_range [OF c] overflow_in_range [OF td])
  then show ?thesis
    by (simp only: overflow_in_range [OF tdc])
qed

theorem CalcCost_sets_cost_witness:
  "CalcCost_in_range 0 0 (link_1_2\<lparr>flow := 50\<rparr>) \<and>
   CalcCost 0 0 (link_1_2\<lparr>flow := 50\<rparr>)
     = Inr (link_1_2\<lparr>flow := 50,
                     cost := Some (Float (Num (Finite (10 * (1 + (15 / 100) * (1 / 2) ^ 4)))))\<rparr>)"
proof -
  have range: "CalcCost_in_range 0 0 (link_1_2\<lparr>flow := 50\<rparr>)"
    unfolding CalcCost_in_range_def Let_def
    by (simp add: example_defs) (intro conjI in_range_small; simp add: power_divide)
  from CalcCost_sets_cost [of "link_1_2\<lparr>flow := 50\<rparr>" 0 0, OF _ _ _ range] range
  show ?thesis
    by (simp add: example_defs)
qed

theorem CalcCost_zero_flow_counterexample:
  "0 < capacity (link_1_2\<lparr>beta := - 1\<rparr>) \<and>
   CalcCost 0 0 (link_1_2\<lparr>beta := - 1\<rparr>) = Inl ZeroDivisionError"
  by (simp add: example_defs CalcCost_def py_div_def py_pow_def round_float_def tiny_def)

section \<open>Properties of the shortest-path search\<close>

text \<open>
  Facts about indexing, about one relaxation and about the two loops of ShortestPath,
  and a rule to carry an invariant through the search: whatever holds at the start and
  is kept by every relaxation from a scanned node holds at the end.
\<close>

lemma py_index_less: "py_index xs i = Inr j \<Longrightarrow> j < length xs"
  by (auto simp: py_index_def Let_def split: if_splits)

lemma py_index_length: "length xs = length ys \<Longrightarrow> py_index xs i = py_index ys i"
  by (simp add: py_index_def)

lemma py_index_ge: "py_index xs i = Inr j \<Longrightarrow> i \<le> int j"
  by (auto simp: py_index_def Let_def split: if_splits)

lemma relax_cases:
  assumes "relax h cur ns r = Inr ns1"
  obtains (same) "ns1 = ns"
  | (update) j c s where "py_index ns (head (h r) - 1) = Inr j" and "cost (h r) = Some (Float c)"
      and "fadd (Num (potential (ns ! cur))) c = Num s"
      and "s < potential (ns ! j)"
      and "ns1 = ns[j := (ns ! j)\<lparr>potential := s, pre := Some (ID (ns ! cur))\<rparr>]"
proof (cases "py_index ns (head (h r) - 1)")
  case (Inl e)
  with assms show ?thesis
    by (simp add: relax_def)
next
  case (Inr j)
  show ?thesis
  proof (cases "cost (h r)")
    case None
    with Inr assms show ?thesis
      by (simp add: relax_def)
  next
    case (Some v)
    show ?thesis
    proof (cases v)
      case (Complex re im)
      with Inr Some assms show ?thesis
        by (simp add: relax_def)
    next
      case (Float c)
      show ?thesis
      proof (cases "fadd (Num (potential (ns ! cur))) c")
        case NaN
        with Inr Some Float assms have "ns1 = ns"
          by (simp add: relax_def)
        then show ?thesis
          by (rule same)
      next
        case (Num s)
        show ?thesis
        proof (cases "s < potential (ns ! j)")
          case True
          with Inr Some Float Num assms
          have "ns1 = ns[j := (ns ! j)\<lparr>potential := s, pre := Some (ID (ns ! cur))\<rparr>]"
            by (simp add: relax_def)
          with Inr Some Float Num True show ?thesis
            by (intro update [of j c s]) simp_all
        next
          case False
          with Inr Some Float Num assms have "ns1 = ns"
            by (simp add: relax_def)
          then show ?thesis
            by (rule same)
        qed
      qed
    qed
  qed
qed

text \<open>
  A cost that is not a finite float: a complex cost raises TypeError at the comparison,
  a cost NaN changes nothing, and the cost \<open>-inf\<close> gives the head the potential \<open>-inf\<close>.
\<close>

lemma relax_complex_cost:
  assumes "py_index ns (head (h r) - 1) = Inr j" and "cost (h r) = Some (Complex re im)"
  shows "relax h cur ns r = Inl TypeError"
  using assms by (simp add: relax_def)

lemma search_nan:
  "ShortestPath ((one_link 1)\<lparr>linkObj := (\<lambda>r. link_1_2\<lparr>cost := Some (Float NaN)\<rparr>)\<rparr>) 1
     = Inr ((one_link 1)\<lparr>linkObj := (\<lambda>r. link_1_2\<lparr>cost := Some (Float NaN)\<rparr>),
              nodes := [Some ((Node_init 1 True)\<lparr>forwardStar := [0], potential := Finite 0\<rparr>),
                        Some ((Node_init 2 True)\<lparr>reverseStar := [0]\<rparr>)]\<rparr>,
            [(Finite 0, None), (Infinity, None)])"
  by (simp add: example_defs eval_defs)

lemma search_negative_infinity:
  "ShortestPath ((one_link 1)\<lparr>linkObj := (\<lambda>r. link_1_2\<lparr>cost := Some (Float (Num NegInfinity))\<rparr>)\<rparr>) 1
     = Inr ((one_link 1)\<lparr>linkObj := (\<lambda>r. link_1_2\<lparr>cost := Some (Float (Num NegInfinity))\<rparr>),
              nodes := [Some ((Node_init 1 True)\<lparr>forwardStar := [0], potential := Finite 0\<rparr>),
                        Some ((Node_init 2 True)\<lparr>reverseStar := [0], potential := NegInfinity,
                                                  pre := Some 1\<rparr>)]\<rparr>,
            [(Finite 0, None), (NegInfinity, Some 1)])"
  by (simp add: example_defs eval_defs)

lemma Reset_update [simp]:
  "ResetPotential (node\<lparr>potential := p\<rparr>) = ResetPotential node"
  "ResetPotential (node\<lparr>pre := q\<rparr>) = ResetPotential node"
  "ResetPotential (ResetPotential node) = ResetPotential node"
  by (simp_all add: ResetPotential_def)

lemma map_Reset_update:
  assumes "ResetPotential x = ResetPotential (ns ! j)"
  shows "map ResetPotential (ns[j := x]) = map ResetPotential ns"
proof (cases "j < length ns")
  case True
  then have "(map ResetPotential ns)[j := ResetPotential (ns ! j)] = map ResetPotential ns"
    by (metis length_map list_update_id nth_map)
  with assms show ?thesis
    by (simp add: map_update)
next
  case False
  then show ?thesis by (simp add: list_update_beyond)
qed

lemma relax_static: "relax h cur ns r = Inr ns1 \<Longrightarrow> map ResetPotential ns1 = map ResetPotential ns"
  by (erule relax_cases) (simp_all add: map_Reset_update)

lemma static_length: "map ResetPotential ns1 = map ResetPotential ns \<Longrightarrow> length ns1 = length ns"
  by (metis length_map)

lemma static_nth:
  assumes "map ResetPotential ns1 = map ResetPotential ns" and "i < length ns"
  shows "ResetPotential (ns1 ! i) = ResetPotential (ns ! i)"
  using assms static_length [OF assms(1)] by (metis nth_map)

lemma Reset_fields:
  assumes "ResetPotential a = ResetPotential b"
  shows "forwardStar a = forwardStar b" and "ID a = ID b"
proof -
  have "forwardStar (ResetPotential a) = forwardStar a" and "forwardStar (ResetPotential b) = forwardStar b"
    and "ID (ResetPotential a) = ID a" and "ID (ResetPotential b) = ID b"
    by (simp_all add: ResetPotential_def)
  with assms show "forwardStar a = forwardStar b" and "ID a = ID b"
    by simp_all
qed

lemma static_forwardStar:
  assumes "map ResetPotential ns1 = map ResetPotential ns" and "i < length ns"
  shows "forwardStar (ns1 ! i) = forwardStar (ns ! i)" and "ID (ns1 ! i) = ID (ns ! i)"
  using Reset_fields [OF static_nth [OF assms]] by simp_all

lemma relax_all_invariant:
  assumes "relax_all h cur rs ns = Inr ns'" and "I ns"
    and step: "\<And>ns r ns1. I ns \<Longrightarrow> r \<in> set rs \<Longrightarrow> relax h cur ns r = Inr ns1 \<Longrightarrow> I ns1"
  shows "I ns'"
  using assms
proof (induction rs arbitrary: ns)
  case Nil
  then show ?case by simp
next
  case (Cons r rs)
  from Cons.prems(1) obtain ns1 where r1: "relax h cur ns r = Inr ns1"
    and rest: "relax_all h cur rs ns1 = Inr ns'"
    by (auto split: sum.splits)
  have "I ns1"
    by (rule Cons.prems(3) [OF Cons.prems(2) _ r1]) simp
  with rest show ?case
  proof (rule Cons.IH)
    fix m r' m1
    assume "I m" and "r' \<in> set rs" and "relax h cur m r' = Inr m1"
    then show "I m1"
      using Cons.prems(3) [of m r' m1] by simp
  qed
qed

lemma relax_all_static: "relax_all h cur rs ns = Inr ns' \<Longrightarrow> map ResetPotential ns' = map ResetPotential ns"
  by (induction rs arbitrary: ns) (auto split: sum.splits dest: relax_static)

lemma positions_nth:
  "positions ns is = Inr js \<Longrightarrow> k < length js \<Longrightarrow> py_index ns (is ! k) = Inr (js ! k)"
proof (induction "is" arbitrary: js k)
  case Nil
  then show ?case by simp
next
  case (Cons i "is")
  then show ?case
    by (cases k) (auto split: sum.splits)
qed

lemma set_pop: "set (pop xs pos) \<subseteq> set xs"
  by (auto simp: pop_def dest: in_set_takeD in_set_dropD)

lemma SP_loop_invariant:
  assumes "SP_loop h ns sl = Inr ns'" and "I ns"
    and step: "\<And>ns cur r ns1. I ns \<Longrightarrow> \<exists>i \<in> set sl. py_index ns i = Inr cur
                 \<Longrightarrow> r \<in> set (forwardStar (ns ! cur)) \<Longrightarrow> relax h cur ns r = Inr ns1 \<Longrightarrow> I ns1"
  shows "I ns'"
  using assms
proof (induction h ns sl rule: SP_loop.induct)
  case (1 h ns)
  then show ?case by (simp add: SP_loop.simps)
next
  case (2 h ns i "is")
  from "2.prems"(1) obtain js where js: "positions ns (i # is) = Inr js"
    by (auto simp: SP_loop.simps split: sum.splits)
  define pos where "pos = choose_pos ns js"
  define cur where "cur = js ! pos"
  from "2.prems"(1) js obtain ns1 where
    ra: "relax_all h cur (forwardStar (ns ! cur)) ns = Inr ns1"
    and loop: "SP_loop h ns1 (pop (i # is) pos) = Inr ns'"
    by (auto simp: SP_loop.simps Let_def pos_def cur_def split: sum.splits)
  have len: "length js = Suc (length is)"
    using positions_length [OF js] by simp
  then have "js \<noteq> []"
    by auto
  then have pos: "pos < length js"
    unfolding pos_def by (rule choose_pos_less)
  have cur: "py_index ns ((i # is) ! pos) = Inr cur"
    unfolding cur_def using js pos by (rule positions_nth)
  have cur_less: "cur < length ns"
    using cur by (rule py_index_less)
  have mem: "(i # is) ! pos \<in> set (i # is)"
    using pos len by (intro nth_mem) simp
  let ?J = "\<lambda>m. I m \<and> map ResetPotential m = map ResetPotential ns"
  have "?J ns1"
    using ra
  proof (rule relax_all_invariant)
    show "?J ns"
      using "2.prems"(2) by simp
  next
    fix m r m1
    assume J: "?J m" and r: "r \<in> set (forwardStar (ns ! cur))" and rel: "relax h cur m r = Inr m1"
    have l: "length m = length ns"
      using J by (metis length_map)
    have "\<exists>i' \<in> set (i # is). py_index m i' = Inr cur"
      using cur mem py_index_length [OF l] by metis
    moreover have "r \<in> set (forwardStar (m ! cur))"
      using r static_forwardStar(1) [of m ns cur] J cur_less by simp
    ultimately have "I m1"
      using J rel "2.prems"(3) by blast
    moreover have "map ResetPotential m1 = map ResetPotential ns"
      using relax_static [OF rel] J by simp
    ultimately show "?J m1"
      by simp
  qed
  then have I1: "I ns1" and l1: "length ns1 = length ns"
    by (auto dest: static_length)
  show ?case
  proof (rule "2.IH" [OF js pos_def cur_def ra loop I1])
    fix m cur' r m1
    assume "I m" and "\<exists>i' \<in> set (pop (i # is) pos). py_index m i' = Inr cur'"
      and "r \<in> set (forwardStar (m ! cur'))" and "relax h cur' m r = Inr m1"
    then show "I m1"
      using "2.prems"(3) set_pop [of "i # is" pos] by blast
  qed
qed


lemma those_Some: "those xs = Some ys \<Longrightarrow> xs = map Some ys"
  by (induction xs arbitrary: ys) (auto split: option.splits)

lemma ShortestPath_Inr:
  assumes "ShortestPath net origin' = Inr (net', T)"
  obtains ns oi n ns' where "nodes net = map Some ns" and "py_index ns (origin' - 1) = Inr oi"
    and "numNodes net = Some n"
    and "SP_loop (linkObj net) ((map ResetPotential ns)[oi := (ResetPotential (ns ! oi))\<lparr>potential := Finite 0\<rparr>])
           [firstThroughNode net - 1 .. n - 1] = Inr ns'"
    and "net' = net\<lparr>nodes := map Some ns'\<rparr>" and "T = table ns'"
proof -
  from assms obtain ns where ns: "those (nodes net) = Some ns"
    by (auto simp: ShortestPath_def split: option.splits)
  from assms ns obtain oi where oi: "py_index (map ResetPotential ns) (origin' - 1) = Inr oi"
    by (auto simp: ShortestPath_def Let_def split: sum.splits)
  then have oi': "py_index ns (origin' - 1) = Inr oi"
    using py_index_length [of "map ResetPotential ns" ns] by simp
  then have "oi < length ns"
    by (rule py_index_less)
  from assms ns oi obtain n where n: "numNodes net = Some n"
    by (auto simp: ShortestPath_def Let_def split: option.splits)
  from assms ns oi n obtain ns' where
    "SP_loop (linkObj net) ((map ResetPotential ns)[oi := (map ResetPotential ns ! oi)\<lparr>potential := Finite 0\<rparr>])
           [firstThroughNode net - 1 .. n - 1] = Inr ns'"
    and "net' = net\<lparr>nodes := map Some ns'\<rparr>" and "T = table ns'"
    by (auto simp: ShortestPath_def Let_def split: sum.splits)
  with \<open>oi < length ns\<close> those_Some [OF ns] oi' n show ?thesis
    by (intro that [of ns oi n ns']) simp_all
qed

lemma SP_loop_static:
  assumes "SP_loop h ns sl = Inr ns'"
  shows "map ResetPotential ns' = map ResetPotential ns"
  using assms
proof (rule SP_loop_invariant [where I = "\<lambda>m. map ResetPotential m = map ResetPotential ns"])
  show "map ResetPotential ns = map ResetPotential ns"
    by simp
next
  fix m cur r m1
  assume "map ResetPotential m = map ResetPotential ns" and "relax h cur m r = Inr m1"
  then show "map ResetPotential m1 = map ResetPotential ns"
    using relax_static [of h cur m r m1] by simp
qed

lemma max_float_pos: "0 < max_float"
  by (simp add: max_float_def)

lemma overflow_nonneg: "0 \<le> r \<Longrightarrow> Finite 0 \<le> overflow r"
  using max_float_pos by (simp add: overflow_def)

lemma fadd_padd: "fadd (Num p) (Num (Finite c)) = Num (padd p c)"
  by (cases p) simp_all

lemma padd_nonneg: "Finite 0 \<le> p \<Longrightarrow> 0 \<le> c \<Longrightarrow> Finite 0 \<le> padd p c"
  by (cases p) (simp_all add: overflow_nonneg)

lemma fadd_nonneg:
  assumes "Finite 0 \<le> p" and "nonneg_cost (Float c)" and "fadd (Num p) c = Num s"
  shows "Finite 0 \<le> s"
proof -
  from assms(2) obtain q where c: "c = Num q" and q: "Finite 0 \<le> q"
    by (cases c) simp_all
  show ?thesis
  proof (cases q)
    case (Finite b)
    with assms c q show ?thesis
      using padd_nonneg [of p b] by (simp add: fadd_padd)
  next
    case Infinity
    with assms c show ?thesis
      by (cases p) (simp_all split: if_splits)
  next
    case NegInfinity
    with q show ?thesis
      by simp
  qed
qed

lemma Reset_eq:
  "ResetPotential a = ResetPotential b \<Longrightarrow> a = b\<lparr>potential := potential a, pre := pre a\<rparr>"
  by (cases a, cases b) (simp add: ResetPotential_def)

lemma padd_finite: "padd p c < q \<Longrightarrow> p \<noteq> Infinity \<and> padd p c \<noteq> Infinity"
  by (cases p) auto

lemma fadd_finite:
  assumes "fadd (Num p) c = Num s" and "s < q"
  shows "p \<noteq> Infinity \<and> s \<noteq> Infinity"
proof (cases c)
  case NaN
  with assms show ?thesis
    by simp
next
  case (Num t)
  with assms show ?thesis
    by (cases p; cases t) (auto split: if_splits)
qed

text \<open>
  A node that no path from the origin reaches keeps the potential infinity and no
  predecessor: only a relaxation from a scanned node with a finite potential changes a
  node, and such a node is reachable and not below the first through node.
\<close>

lemma unreachable_node:
  assumes sp: "ShortestPath net origin' = Inr (net', T)"
    and oi: "py_index (nodes net) (origin' - 1) = Inr oi"
    and v: "v < length (nodes net)"
    and unreach: "\<not> reachable net oi v"
  obtains ns' where "net' = net\<lparr>nodes := map Some ns'\<rparr>" and "T = table ns'"
    and "v < length ns'" and "potential (ns' ! v) = Infinity" and "pre (ns' ! v) = None"
proof -
  from sp obtain ns oi' n ns' where ns: "nodes net = map Some ns"
    and oi': "py_index ns (origin' - 1) = Inr oi'" and n: "numNodes net = Some n"
    and loop: "SP_loop (linkObj net) ((map ResetPotential ns)[oi' := (ResetPotential (ns ! oi'))\<lparr>potential := Finite 0\<rparr>])
           [firstThroughNode net - 1 .. n - 1] = Inr ns'"
    and net': "net' = net\<lparr>nodes := map Some ns'\<rparr>" and T: "T = table ns'"
    by (rule ShortestPath_Inr)
  have "oi' = oi"
    using oi oi' ns py_index_length [of "nodes net" ns] by simp
  let ?start = "(map ResetPotential ns)[oi := (ResetPotential (ns ! oi))\<lparr>potential := Finite 0\<rparr>]"
  have oi_less: "oi < length ns"
    using oi' \<open>oi' = oi\<close> py_index_less by blast
  have st0: "map ResetPotential ?start = map ResetPotential ns"
    using map_Reset_update [of "(ResetPotential (ns ! oi))\<lparr>potential := Finite 0\<rparr>" "map ResetPotential ns" oi]
      oi_less by simp
  let ?I = "\<lambda>m. map ResetPotential m = map ResetPotential ns \<and>
     (\<forall>w < length m. potential (m ! w) \<noteq> Infinity \<or> pre (m ! w) \<noteq> None \<longrightarrow> reachable net oi w)"
  have "?I ns'"
    using loop [unfolded \<open>oi' = oi\<close>]
  proof (rule SP_loop_invariant)
    show "?I ?start"
    proof (intro conjI allI impI)
      show "map ResetPotential ?start = map ResetPotential ns"
        by (rule st0)
    next
      fix w
      assume w: "w < length ?start"
        and fin: "potential (?start ! w) \<noteq> Infinity \<or> pre (?start ! w) \<noteq> None"
      have "w = oi"
      proof (rule ccontr)
        assume "w \<noteq> oi"
        then have "?start ! w = ResetPotential (ns ! w)"
          using w by simp
        with fin show False
          by (simp add: ResetPotential_def)
      qed
      then show "reachable net oi w"
        by (simp add: reachable.origin)
    qed
  next
    fix m cur r m1
    assume I: "?I m" and cur: "\<exists>i \<in> set [firstThroughNode net - 1 .. n - 1]. py_index m i = Inr cur"
      and r: "r \<in> set (forwardStar (m ! cur))" and rel: "relax (linkObj net) cur m r = Inr m1"
    have len: "length m = length ns"
      using I by (metis length_map)
    have cur_less: "cur < length ns"
      using cur len py_index_less by fastforce
    have through: "firstThroughNode net - 1 \<le> int cur"
      using cur py_index_ge by fastforce
    have st1: "map ResetPotential m1 = map ResetPotential ns"
      using relax_static [OF rel] I by simp
    from rel show "?I m1"
    proof (cases rule: relax_cases)
      case same
      with I show ?thesis by simp
    next
      case (update j c s)
      have j: "j < length ns"
        using update(1) len py_index_less by fastforce
      have "potential (m ! cur) \<noteq> Infinity"
        using fadd_finite [OF update(3) update(4)] by simp
      then have rc: "reachable net oi cur"
        using I cur_less len by simp
      have "forwardStar (m ! cur) = forwardStar (ns ! cur)"
        using static_forwardStar(1) [of m ns cur] I cur_less by simp
      with r have r': "r \<in> set (forwardStar (ns ! cur))"
        by simp
      have "py_index (nodes net) (head (linkObj net r) - 1) = Inr j"
        using update(1) py_index_length [of "nodes net" m] len ns by simp
      with rc have "reachable net oi j"
        using cur_less ns through r' by (intro reachable.link [of net oi cur "ns ! cur" r j]) simp_all
      have "reachable net oi w"
        if "w < length m1" and "potential (m1 ! w) \<noteq> Infinity \<or> pre (m1 ! w) \<noteq> None" for w
      proof (cases "w = j")
        case True
        with \<open>reachable net oi j\<close> show ?thesis by simp
      next
        case False
        then have "m1 ! w = m ! w"
          using update(5) by simp
        with that I update(5) show ?thesis
          by simp
      qed
      with st1 show ?thesis
        by simp
    qed
  qed
  then have st: "map ResetPotential ns' = map ResetPotential ns"
    and inv: "potential (ns' ! v) \<noteq> Infinity \<or> pre (ns' ! v) \<noteq> None \<longrightarrow> reachable net oi v"
    using v ns by (auto dest: static_length)
  have lv: "v < length ns'"
    using v ns static_length [OF st] by simp
  from inv unreach have "potential (ns' ! v) = Infinity" and "pre (ns' ! v) = None"
    by auto
  with lv net' T show ?thesis
    by (intro that [of ns']) simp_all
qed

section \<open>ShortestPath: unreachable nodes\<close>

text \<open>
  Claim C9. When ShortestPath(origin) returns, every node that cannot be reached from
  the origin under the through-node restriction (origin exempt) still has the potential
  +infinity and no predecessor, in the node's own state and in the returned table.
\<close>

theorem unreachable_stays:
  assumes "ShortestPath net origin' = Inr (net', T)"
    and "py_index (nodes net) (origin' - 1) = Inr oi"
    and "v < length (nodes net)"
    and "\<not> reachable net oi v"
  shows "(\<exists>node. nodes net' ! v = Some node \<and> potential node = Infinity \<and> pre node = None)
         \<and> T ! v = (Infinity, None)"
proof -
  from assms obtain ns' where net': "net' = net\<lparr>nodes := map Some ns'\<rparr>" and T: "T = table ns'"
    and v: "v < length ns'" and inf: "potential (ns' ! v) = Infinity" "pre (ns' ! v) = None"
    by (rule unreachable_node)
  from net' v have "nodes net' ! v = Some (ns' ! v)"
    by simp
  moreover from T v have "T ! v = (potential (ns' ! v), pre (ns' ! v))"
    by (simp add: table_def)
  ultimately show ?thesis
    using inf by simp
qed

lemma back_link_search:
  "ShortestPath back_link 1 = Inr (back_link_searched, [(Finite 0, None), (Infinity, None)])"
  by (simp add: back_link_searched_def example_defs eval_defs)

lemma back_link_unreachable: "\<not> reachable back_link 0 (Suc 0)"
proof
  assume "reachable back_link 0 (Suc 0)"
  moreover have "v = 0" if "reachable back_link 0 v" for v
    using that
  proof (induction rule: reachable.induct)
    case origin
    show ?case by simp
  next
    case (link u node r v)
    then have "node = (Node_init 1 True)\<lparr>reverseStar := [0]\<rparr>"
      by (simp add: back_link_def)
    with \<open>r \<in> set (forwardStar node)\<close> show ?case
      by (simp add: Node_init_def)
  qed
  ultimately show False
    by blast
qed

theorem unreachable_stays_witness:
  "ShortestPath back_link 1 = Inr (back_link_searched, [(Finite 0, None), (Infinity, None)])
   \<and> \<not> reachable back_link 0 (Suc 0)
   \<and> (\<exists>node. nodes back_link_searched ! Suc 0 = Some node \<and> potential node = Infinity
         \<and> pre node = None)
   \<and> [(Finite 0, None), (Infinity, None)] ! Suc 0 = (Infinity, None :: int option)"
proof -
  have oi: "py_index (nodes back_link) (1 - 1) = Inr 0"
    by (simp add: example_defs py_index_def)
  have v: "Suc 0 < length (nodes back_link)"
    by (simp add: example_defs)
  from unreachable_stays [OF back_link_search oi v back_link_unreachable]
    back_link_search back_link_unreachable
  show ?thesis
    by blast
qed

section \<open>ShortestPath: the returned table\<close>

text \<open>
  Claim C10. With link costs that are not negative, the value ShortestPath(origin)
  returns has one entry for each node, in the order of the node list (position i is the
  node of ID i + 1 in a loaded network): the entry is the pair (potential, pre) the node
  now holds, the node being otherwise unchanged; the origin's entry is (0, None); an entry
  with potential +infinity has the predecessor None; and a predecessor that is not None
  is an integer, the ID of a node with a link of its forward star into this node.
\<close>

theorem ShortestPath_table:
  assumes sp: "ShortestPath net origin' = Inr (net', T)"
    and nonneg: "\<forall>r c. cost (linkObj net r) = Some c \<longrightarrow> nonneg_cost c"
    and oi: "py_index (nodes net) (origin' - 1) = Inr oi"
  shows "length T = length (nodes net) \<and>
         T ! oi = (Finite 0, None) \<and>
         (\<forall>i < length T. \<exists>node. nodes net ! i = Some node \<and>
              nodes net' ! i = Some (node\<lparr>potential := fst (T ! i), pre := snd (T ! i)\<rparr>)) \<and>
         (\<forall>i < length T. fst (T ! i) = Infinity \<longrightarrow> snd (T ! i) = None) \<and>
         (\<forall>i < length T. \<forall>p. snd (T ! i) = Some p \<longrightarrow>
              (\<exists>u node. u < length (nodes net) \<and> nodes net ! u = Some node \<and> p = ID node \<and>
                 (\<exists>r \<in> set (forwardStar node).
                     py_index (nodes net) (head (linkObj net r) - 1) = Inr i)))"
proof -
  from sp obtain ns oi' n ns' where ns: "nodes net = map Some ns"
    and oi': "py_index ns (origin' - 1) = Inr oi'" and n: "numNodes net = Some n"
    and loop: "SP_loop (linkObj net) ((map ResetPotential ns)[oi' := (ResetPotential (ns ! oi'))\<lparr>potential := Finite 0\<rparr>])
           [firstThroughNode net - 1 .. n - 1] = Inr ns'"
    and net': "net' = net\<lparr>nodes := map Some ns'\<rparr>" and T: "T = table ns'"
    by (rule ShortestPath_Inr)
  have "oi' = oi"
    using oi oi' ns py_index_length [of "nodes net" ns] by simp
  let ?start = "(map ResetPotential ns)[oi := (ResetPotential (ns ! oi))\<lparr>potential := Finite 0\<rparr>]"
  have oi_less: "oi < length ns"
    using oi' \<open>oi' = oi\<close> py_index_less by blast
  have st0: "map ResetPotential ?start = map ResetPotential ns"
    using map_Reset_update [of "(ResetPotential (ns ! oi))\<lparr>potential := Finite 0\<rparr>" "map ResetPotential ns" oi]
      oi_less by simp
  let ?link = "\<lambda>i p. \<exists>u < length ns. p = ID (ns ! u) \<and>
      (\<exists>r \<in> set (forwardStar (ns ! u)). py_index ns (head (linkObj net r) - 1) = Inr i)"
  let ?I = "\<lambda>m. map ResetPotential m = map ResetPotential ns \<and>
     potential (m ! oi) = Finite 0 \<and> pre (m ! oi) = None \<and>
     (\<forall>w < length m. Finite 0 \<le> potential (m ! w)) \<and>
     (\<forall>w < length m. potential (m ! w) = Infinity \<longrightarrow> pre (m ! w) = None) \<and>
     (\<forall>w < length m. \<forall>p. pre (m ! w) = Some p \<longrightarrow> ?link w p)"
  have "?I ns'"
    using loop [unfolded \<open>oi' = oi\<close>]
  proof (rule SP_loop_invariant)
    have other: "?start ! w = ResetPotential (ns ! w)" if "w < length ns" and "w \<noteq> oi" for w
      using that by simp
    have at_oi: "?start ! oi = (ResetPotential (ns ! oi))\<lparr>potential := Finite 0\<rparr>"
      using oi_less by simp
    have "potential (?start ! w) = (if w = oi then Finite 0 else Infinity) \<and> pre (?start ! w) = None"
      if "w < length ns" for w
      using that other [of w] at_oi by (cases "w = oi") (simp_all add: ResetPotential_def)
    then have pp: "\<And>w. w < length ?start \<Longrightarrow>
        potential (?start ! w) = (if w = oi then Finite 0 else Infinity) \<and> pre (?start ! w) = None"
      by simp
    have "potential (?start ! oi) = Finite 0" and "pre (?start ! oi) = None"
      using pp [of oi] oi_less by simp_all
    moreover have "Finite 0 \<le> potential (?start ! w)" if "w < length ?start" for w
      using pp [OF that] by (cases "w = oi") simp_all
    moreover have "pre (?start ! w) = None" if "w < length ?start" for w
      using pp [OF that] by simp
    ultimately show "?I ?start"
      using st0 by (metis option.distinct(1))
  next
    fix m cur r m1
    assume I: "?I m" and cur: "\<exists>i \<in> set [firstThroughNode net - 1 .. n - 1]. py_index m i = Inr cur"
      and r: "r \<in> set (forwardStar (m ! cur))" and rel: "relax (linkObj net) cur m r = Inr m1"
    have len: "length m = length ns"
      using I by (metis length_map)
    have cur_less: "cur < length ns"
      using cur len py_index_less by fastforce
    have st1: "map ResetPotential m1 = map ResetPotential ns"
      using relax_static [OF rel] I by simp
    from rel show "?I m1"
    proof (cases rule: relax_cases)
      case same
      with I show ?thesis by simp
    next
      case (update j c s)
      have j: "j < length ns"
        using update(1) len py_index_less by fastforce
      have c: "nonneg_cost (Float c)"
        using nonneg update(2) by blast
      have fin: "potential (m ! cur) \<noteq> Infinity" and fin': "s \<noteq> Infinity"
        using fadd_finite [OF update(3) update(4)] by simp_all
      have ge: "Finite 0 \<le> s"
        using _ c update(3)
      proof (rule fadd_nonneg)
        show "Finite 0 \<le> potential (m ! cur)"
          using I cur_less len by simp
      qed
      have "j \<noteq> oi"
      proof
        assume "j = oi"
        with update(4) I have "s < Finite 0"
          by simp
        with ge show False
          by simp
      qed
      have fs: "forwardStar (m ! cur) = forwardStar (ns ! cur)" and id: "ID (m ! cur) = ID (ns ! cur)"
        using static_forwardStar [of m ns cur] I cur_less by simp_all
      have pj: "py_index ns (head (linkObj net r) - 1) = Inr j"
        using update(1) py_index_length [OF len] by simp
      have lk: "?link j (ID (m ! cur))"
        using cur_less id fs r pj by auto
      have m1j: "m1 ! j = (m ! j)\<lparr>potential := s, pre := Some (ID (m ! cur))\<rparr>"
        using update(5) j len by simp
      have m1w: "m1 ! w = m ! w" if "w \<noteq> j" for w
        using update(5) that by simp
      have l1: "length m1 = length m"
        using update(5) by simp
      have "potential (m1 ! oi) = Finite 0 \<and> pre (m1 ! oi) = None"
        using m1w [of oi] \<open>j \<noteq> oi\<close> I by simp
      moreover have "Finite 0 \<le> potential (m1 ! w)" if "w < length m1" for w
        using that I l1 m1j m1w [of w] ge by (cases "w = j") simp_all
      moreover have "pre (m1 ! w) = None" if "w < length m1" and "potential (m1 ! w) = Infinity" for w
        using that I l1 m1j m1w [of w] fin' by (cases "w = j") simp_all
      moreover have "?link w p" if "w < length m1" and "pre (m1 ! w) = Some p" for w p
        using that I l1 m1j m1w [of w] lk by (cases "w = j") simp_all
      ultimately show ?thesis
        using st1 by blast
    qed
  qed
  then have st: "map ResetPotential ns' = map ResetPotential ns"
    and o1: "potential (ns' ! oi) = Finite 0" "pre (ns' ! oi) = None"
    and inf: "\<And>w. w < length ns' \<Longrightarrow> potential (ns' ! w) = Infinity \<Longrightarrow> pre (ns' ! w) = None"
    and lk: "\<And>w p. w < length ns' \<Longrightarrow> pre (ns' ! w) = Some p \<Longrightarrow> ?link w p"
    by blast+
  have len: "length ns' = length ns"
    using st by (rule static_length)
  have lT: "length T = length (nodes net)"
    using T ns len by (simp add: table_def)
  have Ti: "T ! i = (potential (ns' ! i), pre (ns' ! i))" if "i < length ns" for i
    using that T len by (simp add: table_def)
  have same: "ns' ! i = (ns ! i)\<lparr>potential := potential (ns' ! i), pre := pre (ns' ! i)\<rparr>"
    if "i < length ns" for i
  proof -
    have "ResetPotential (ns' ! i) = ResetPotential (ns ! i)"
      using st that by (rule static_nth)
    then show ?thesis
      by (rule Reset_eq)
  qed
  have c1: "T ! oi = (Finite 0, None)"
    using Ti [OF oi_less] o1 by simp
  have c2: "\<exists>node. nodes net ! i = Some node \<and>
              nodes net' ! i = Some (node\<lparr>potential := fst (T ! i), pre := snd (T ! i)\<rparr>)"
    if "i < length T" for i
    using that lT ns net' len Ti [of i] same [of i] by simp
  have c3: "snd (T ! i) = None" if "i < length T" and "fst (T ! i) = Infinity" for i
    using that lT ns len Ti [of i] inf [of i] by simp
  have c4: "\<exists>u node. u < length (nodes net) \<and> nodes net ! u = Some node \<and> p = ID node \<and>
                 (\<exists>r \<in> set (forwardStar node).
                     py_index (nodes net) (head (linkObj net r) - 1) = Inr i)"
    if "i < length T" and "snd (T ! i) = Some p" for i p
  proof -
    from that lT ns len Ti [of i] have "?link i p"
      by (intro lk) simp_all
    then obtain u r where "u < length ns" and "p = ID (ns ! u)" and "r \<in> set (forwardStar (ns ! u))"
      and "py_index ns (head (linkObj net r) - 1) = Inr i"
      by blast
    then show ?thesis
      using ns py_index_length [of "nodes net" ns] by (intro exI [of _ u] exI [of _ "ns ! u"]) auto
  qed
  from lT c1 c2 c3 c4 show ?thesis
    by blast
qed

lemma one_link_search:
  "ShortestPath (one_link 1) 1 = Inr (one_link_searched, [(Finite 0, None), (Finite 10, Some 1)])"
  by (simp add: one_link_searched_def example_defs eval_defs)

theorem ShortestPath_table_witness:
  "ShortestPath (one_link 1) 1 = Inr (one_link_searched, [(Finite 0, None), (Finite 10, Some 1)])
   \<and> length [(Finite 0, None :: int option), (Finite 10, Some 1)] = length (nodes (one_link 1))
   \<and> [(Finite 0, None), (Finite 10, Some 1)] ! 0 = (Finite 0, None :: int option)
   \<and> (\<exists>u node. u < length (nodes (one_link 1)) \<and> nodes (one_link 1) ! u = Some node \<and> 1 = ID node
         \<and> (\<exists>r. r \<in> set (forwardStar node)
               \<and> py_index (nodes (one_link 1)) (head (linkObj (one_link 1) r) - 1) = Inr (Suc 0)))"
proof -
  have nonneg: "\<forall>r c. cost (linkObj (one_link 1) r) = Some c \<longrightarrow> nonneg_cost c"
    by (simp add: example_defs)
  have oi: "py_index (nodes (one_link 1)) (1 - 1) = Inr 0"
    by (simp add: example_defs py_index_def)
  note t = ShortestPath_table [OF one_link_search nonneg oi]
  from t have len: "length [(Finite 0, None :: int option), (Finite 10, Some 1)] = length (nodes (one_link 1))"
    and orig: "[(Finite 0, None), (Finite 10, Some 1)] ! 0 = (Finite 0, None :: int option)"
    and pred: "\<forall>i < length [(Finite 0, None :: int option), (Finite 10, Some 1)].
        \<forall>p. snd ([(Finite 0, None), (Finite 10, Some 1)] ! i) = Some p \<longrightarrow>
          (\<exists>u node. u < length (nodes (one_link 1)) \<and> nodes (one_link 1) ! u = Some node \<and> p = ID node \<and>
             (\<exists>r \<in> set (forwardStar node).
                 py_index (nodes (one_link 1)) (head (linkObj (one_link 1) r) - 1) = Inr i))"
    by blast+
  from pred [rule_format, of "Suc 0" 1]
  have "\<exists>u node. u < length (nodes (one_link 1)) \<and> nodes (one_link 1) ! u = Some node \<and> 1 = ID node
         \<and> (\<exists>r. r \<in> set (forwardStar node)
               \<and> py_index (nodes (one_link 1)) (head (linkObj (one_link 1) r) - 1) = Inr (Suc 0))"
    by (simp add: Bex_def)
  with len orig one_link_search show ?thesis
    by blast
qed

section \<open>ShortestPath: an origin below the first through node\<close>

text \<open>
  Claim C6 says that the origin is finalized and its outgoing links are relaxed whatever
  its ID. The scan list starts at the first through node and the origin is not added to
  it: with the first through node 2, the search from node 1 of the one-link network
  leaves node 2 at potential +infinity, although the link from 1 to 2 exists.
\<close>

theorem origin_below_threshold_not_scanned:
  "ShortestPath (one_link 2) 1
     = Inr ((one_link 2)\<lparr>nodes := [Some ((Node_init 1 True)\<lparr>forwardStar := [0], potential := Finite 0\<rparr>),
                                   Some ((Node_init 2 True)\<lparr>reverseStar := [0]\<rparr>)]\<rparr>,
            [(Finite 0, None), (Infinity, None)])"
  by (simp add: example_defs eval_defs)

section \<open>ShortestPath: single-link networks\<close>

text \<open>
  Claim C8 says that on every single-link network the search from the tail gives the
  head the link's cost as potential and the tail as predecessor. In the one-link network
  whose two nodes are zones and whose first through node is 3 (no zone is a through
  node), the scan list is empty and the head keeps (+infinity, None); with the first
  through node 1 the head gets (10, 1).
\<close>

theorem single_link_tail_below_threshold:
  "ShortestPath (one_link 3) 1
     = Inr ((one_link 3)\<lparr>nodes := [Some ((Node_init 1 True)\<lparr>forwardStar := [0], potential := Finite 0\<rparr>),
                                   Some ((Node_init 2 True)\<lparr>reverseStar := [0]\<rparr>)]\<rparr>,
            [(Finite 0, None), (Infinity, None)])
   \<and> cost (linkObj (one_link 3) 0) = Some (Float (Num (Finite 10)))"
  by (simp add: example_defs eval_defs)

section \<open>AON: what the method returns and changes\<close>

text \<open>
  ShortestPath changes nothing of the network but the nodes, and the walk of AON over the
  predecessors changes values of the result dictionary only, never its keys.
\<close>

lemma ShortestPath_frame:
  assumes "ShortestPath net origin' = Inr (net', T)"
  shows "net' = net\<lparr>nodes := nodes net'\<rparr>" and "length T = length (nodes net)"
proof -
  from assms obtain ns oi n ns' where ns: "nodes net = map Some ns"
    and loop: "SP_loop (linkObj net) ((map ResetPotential ns)[oi := (ResetPotential (ns ! oi))\<lparr>potential := Finite 0\<rparr>])
           [firstThroughNode net - 1 .. n - 1] = Inr ns'"
    and net': "net' = net\<lparr>nodes := map Some ns'\<rparr>" and T: "T = table ns'"
    by (rule ShortestPath_Inr)
  from net' show "net' = net\<lparr>nodes := nodes net'\<rparr>"
    by simp
  have "length ns' = length ns"
    using static_length [OF SP_loop_static [OF loop]] by simp
  with T ns show "length T = length (nodes net)"
    by (simp add: table_def)
qed

lemma update_keys_mem: "map_of al k = Some v \<Longrightarrow> map fst (AList.update k w al) = map fst al"
  by (induction al) (auto split: if_splits)

lemma trace_keys:
  assumes "trace SPath demands d AON_flow = Some (Inr AON_flow')"
  shows "map fst AON_flow' = map fst AON_flow"
proof -
  let ?P = "\<lambda>(SPath :: (pfloat \<times> int option) list) (demands :: real) (d :: int)
     (fl :: ((int \<times> int) \<times> real) list) (res :: error + ((int \<times> int) \<times> real) list).
     \<forall>fl'. res = Inr fl' \<longrightarrow> map fst fl' = map fst fl"
  have "?P SPath demands d AON_flow (Inr AON_flow')"
  proof (rule trace.raw_induct [where P = ?P, OF _ assms])
    fix tr :: "(pfloat \<times> int option) list \<Rightarrow> real \<Rightarrow> int \<Rightarrow> ((int \<times> int) \<times> real) list
        \<Rightarrow> (error + ((int \<times> int) \<times> real) list) option"
      and SPath demands d fl res
    assume IH: "\<And>SPath demands d fl res. tr SPath demands d fl = Some res \<Longrightarrow>
          \<forall>fl'. res = Inr fl' \<longrightarrow> map fst fl' = map fst fl"
      and body: "(case py_index SPath (d - 1) of
          Inl e \<Rightarrow> Some (Inl e)
        | Inr j \<Rightarrow>
            (case snd (SPath ! j) of
               None \<Rightarrow> Some (Inr fl)
             | Some p \<Rightarrow>
                 (case map_of fl (p, d) of
                    None \<Rightarrow> Some (Inl KeyError)
                  | Some v \<Rightarrow> tr SPath demands p (AList.update (p, d) (v + demands) fl)))) = Some res"
    show "\<forall>fl'. res = Inr fl' \<longrightarrow> map fst fl' = map fst fl"
    proof (intro allI impI)
      fix fl'
      assume res: "res = Inr fl'"
      show "map fst fl' = map fst fl"
      proof (cases "py_index SPath (d - 1)")
        case (Inl e)
        with body res show ?thesis by simp
      next
        case (Inr j)
        show ?thesis
        proof (cases "snd (SPath ! j)")
          case None
          with Inr body res show ?thesis by simp
        next
          case (Some p)
          show ?thesis
          proof (cases "map_of fl (p, d)")
            case None
            with Inr Some body res show ?thesis by simp
          next
            case (Some v)
            with Inr \<open>snd (SPath ! j) = Some p\<close> body
            have "tr SPath demands p (AList.update (p, d) (v + demands) fl) = Some res"
              by simp
            from IH [OF this] res have "map fst fl' = map fst (AList.update (p, d) (v + demands) fl)"
              by simp
            with Some show ?thesis
              by (simp add: update_keys_mem)
          qed
        qed
      qed
    qed
  qed
  then show ?thesis
    by simp
qed

lemma AON_dests_keys:
  "AON_dests SPath dests AON_flow = Some (Inr AON_flow') \<Longrightarrow> map fst AON_flow' = map fst AON_flow"
proof (induction dests arbitrary: AON_flow)
  case Nil
  then show ?case by simp
next
  case (Cons a dests)
  obtain d od where a: "a = (d, od)"
    by (cases a)
  from Cons.prems a obtain fl1 where t: "trace SPath (demand od) d AON_flow = Some (Inr fl1)"
    and rest: "AON_dests SPath dests fl1 = Some (Inr AON_flow')"
    by (auto split: option.splits sum.splits)
  from Cons.IH [OF rest] trace_keys [OF t] show ?case
    by simp
qed

lemma AON_origins_frame:
  "AON_origins net origins AON_flow = Some (Inr (net', AON_flow'))
     \<Longrightarrow> map fst AON_flow' = map fst AON_flow \<and> net' = net\<lparr>nodes := nodes net'\<rparr>"
proof (induction origins arbitrary: net AON_flow)
  case Nil
  then show ?case by simp
next
  case (Cons a origins)
  obtain o' dests where a: "a = (o', dests)"
    by (cases a)
  from Cons.prems a obtain net1 SPath fl1 where sp: "ShortestPath net o' = Inr (net1, SPath)"
    and ds: "AON_dests SPath dests AON_flow = Some (Inr fl1)"
    and rest: "AON_origins net1 origins fl1 = Some (Inr (net', AON_flow'))"
    by (auto split: option.splits sum.splits)
  from Cons.IH [OF rest] have k: "map fst AON_flow' = map fst fl1" and n: "net' = net1\<lparr>nodes := nodes net'\<rparr>"
    by simp_all
  from ShortestPath_frame(1) [OF sp] n have "net' = net\<lparr>nodes := nodes net'\<rparr>"
    by (metis Network.update_convs(3) Network.surjective)
  with k AON_dests_keys [OF ds] show ?case
    by simp
qed

section \<open>The search on a well-formed network\<close>

text \<open>
  The search returns on a well-formed network and keeps the invariant; from the
  invariant, the walk of AON over the predecessors ends, at the origin or at a node
  that was not reached.
\<close>

lemma index_of_nth: "x \<in> set xs \<Longrightarrow> xs ! index_of x xs = x"
  by (induction xs) auto

lemma min_list_le: "x \<in> set xs \<Longrightarrow> min_list xs \<le> (x :: 'a :: linorder)"
proof -
  assume x: "x \<in> set xs"
  then have "xs \<noteq> []"
    by auto
  then have "min_list xs = Min (set xs)"
    by (rule min_list_Min)
  with x show ?thesis
    by simp
qed

lemma choose_pos_min:
  assumes "js \<noteq> []" and "w \<in> set js"
  shows "potential (ns ! (js ! choose_pos ns js)) \<le> potential (ns ! w)"
proof -
  let ?ps = "map (\<lambda>j. potential (ns ! j)) js"
  have ne: "?ps \<noteq> []"
    using assms(1) by simp
  have pos: "choose_pos ns js < length js"
    using assms(1) by (rule choose_pos_less)
  have "?ps ! choose_pos ns js = min_list ?ps"
    unfolding choose_pos_def Let_def using min_list_in_set [OF ne] by (rule index_of_nth)
  then have "potential (ns ! (js ! choose_pos ns js)) = min_list ?ps"
    using pos by simp
  moreover have "min_list ?ps \<le> potential (ns ! w)"
    using assms(2) by (intro min_list_le) simp
  ultimately show ?thesis
    by simp
qed

lemma positions_in_range:
  assumes "\<forall>i \<in> set sl. 0 \<le> i \<and> nat i < length ns"
  shows "positions ns sl = Inr (map nat sl)"
  using assms
proof (induction sl)
  case Nil
  show ?case by simp
next
  case (Cons i sl)
  from Cons.prems have i: "0 \<le> i" "nat i < length ns"
    by simp_all
  then have "i < int (length ns)"
    by linarith
  with i(1) have "py_index ns i = Inr (nat i)"
    by (simp add: py_index_def)
  moreover from Cons have "positions ns sl = Inr (map nat sl)"
    by simp
  ultimately show ?case
    by simp
qed

lemma map_pop: "map f (pop xs pos) = pop (map f xs) pos"
  by (simp add: pop_def take_map drop_map)

lemma pop_split:
  assumes "pos < length xs"
  obtains a x b where "xs = a @ x # b" and "xs ! pos = x" and "pop xs pos = a @ b"
proof
  show "xs = take pos xs @ xs ! pos # drop (Suc pos) xs"
    using assms by (rule id_take_nth_drop)
  show "xs ! pos = xs ! pos"
    by simp
  show "pop xs pos = take pos xs @ drop (Suc pos) xs"
    by (simp add: pop_def)
qed

lemma distinct_pop:
  assumes "distinct (D @ js)" and "pos < length js"
  shows "distinct ((D @ [js ! pos]) @ pop js pos)" and "set ((D @ [js ! pos]) @ pop js pos) = set (D @ js)"
proof -
  from assms(2) obtain a x b where "js = a @ x # b" and "js ! pos = x" and "pop js pos = a @ b"
    by (rule pop_split)
  with assms(1) show "distinct ((D @ [js ! pos]) @ pop js pos)"
    and "set ((D @ [js ! pos]) @ pop js pos) = set (D @ js)"
    by auto
qed

lemma dijkstra_invD:
  assumes "dijkstra_inv h ns0 oi D js m"
  shows "map ResetPotential m = map ResetPotential ns0"
    and "distinct (D @ js)" and "set (D @ js) \<subseteq> {..<length ns0}"
    and "\<And>k k'. k' < length D \<Longrightarrow> k \<le> k' \<Longrightarrow> potential (m ! (D ! k)) \<le> potential (m ! (D ! k'))"
    and "\<And>s w. s \<in> set D \<Longrightarrow> w \<in> set js \<Longrightarrow> potential (m ! s) \<le> potential (m ! w)"
    and "potential (m ! oi) = Finite 0" and "pre (m ! oi) = None"
    and "\<And>w. w < length ns0 \<Longrightarrow> Finite 0 \<le> potential (m ! w)"
    and "\<And>w. w < length ns0 \<Longrightarrow> potential (m ! w) \<noteq> Infinity \<Longrightarrow> w = oi \<or> pre (m ! w) \<noteq> None"
    and "\<And>v p. v < length ns0 \<Longrightarrow> pre (m ! v) = Some p \<Longrightarrow> pred_ok h ns0 D m v p"
  using assms unfolding dijkstra_inv_def by simp_all

lemma dijkstra_invI:
  assumes "map ResetPotential m = map ResetPotential ns0"
    and "distinct (D @ js)" and "set (D @ js) \<subseteq> {..<length ns0}"
    and "\<And>k k'. k' < length D \<Longrightarrow> k \<le> k' \<Longrightarrow> potential (m ! (D ! k)) \<le> potential (m ! (D ! k'))"
    and "\<And>s w. s \<in> set D \<Longrightarrow> w \<in> set js \<Longrightarrow> potential (m ! s) \<le> potential (m ! w)"
    and "potential (m ! oi) = Finite 0" and "pre (m ! oi) = None"
    and "\<And>w. w < length ns0 \<Longrightarrow> Finite 0 \<le> potential (m ! w)"
    and "\<And>w. w < length ns0 \<Longrightarrow> potential (m ! w) \<noteq> Infinity \<Longrightarrow> w = oi \<or> pre (m ! w) \<noteq> None"
    and "\<And>v p. v < length ns0 \<Longrightarrow> pre (m ! v) = Some p \<Longrightarrow> pred_ok h ns0 D m v p"
  shows "dijkstra_inv h ns0 oi D js m"
  unfolding dijkstra_inv_def
  by (intro conjI allI impI ballI; rule assms; assumption)

lemma step_select:
  assumes inv: "dijkstra_inv h ns0 oi D js m" and ne: "js \<noteq> []"
  shows "dijkstra_inv h ns0 oi (D @ [js ! choose_pos m js]) (pop js (choose_pos m js)) m"
proof -
  note I = dijkstra_invD [OF inv]
  let ?pos = "choose_pos m js"
  let ?cur = "js ! ?pos"
  have pos: "?pos < length js"
    using ne by (rule choose_pos_less)
  then have cur_in: "?cur \<in> set js"
    by simp
  have sub: "set (pop js ?pos) \<subseteq> set js"
    by (rule set_pop)
  show ?thesis
  proof (rule dijkstra_invI)
    show "map ResetPotential m = map ResetPotential ns0"
      by (rule I(1))
    show "distinct ((D @ [?cur]) @ pop js ?pos)"
      using I(2) pos by (rule distinct_pop(1))
    show "set ((D @ [?cur]) @ pop js ?pos) \<subseteq> {..<length ns0}"
      using distinct_pop(2) [OF I(2) pos] I(3) by simp
    show "potential (m ! ((D @ [?cur]) ! k)) \<le> potential (m ! ((D @ [?cur]) ! k'))"
      if "k' < length (D @ [?cur])" and "k \<le> k'" for k k'
    proof (cases "k' < length D")
      case True
      with that I(4) [of k' k] show ?thesis
        by (simp add: nth_append)
    next
      case False
      with that have k': "k' = length D"
        by simp
      show ?thesis
      proof (cases "k = k'")
        case True
        then show ?thesis by simp
      next
        case False
        with that k' have "k < length D"
          by simp
        then have "potential (m ! (D ! k)) \<le> potential (m ! ?cur)"
          using cur_in by (intro I(5)) simp_all
        with k' \<open>k < length D\<close> show ?thesis
          by (simp add: nth_append)
      qed
    qed
    show "potential (m ! s) \<le> potential (m ! w)"
      if "s \<in> set (D @ [?cur])" and "w \<in> set (pop js ?pos)" for s w
    proof (cases "s \<in> set D")
      case True
      with that sub show ?thesis
        by (intro I(5)) auto
    next
      case False
      with that have "s = ?cur"
        by simp
      with that sub choose_pos_min [OF ne, of w m] show ?thesis
        by auto
    qed
    show "potential (m ! oi) = Finite 0" and "pre (m ! oi) = None"
      by (rule I(6), rule I(7))
    show "Finite 0 \<le> potential (m ! w)" if "w < length ns0" for w
      using that by (rule I(8))
    show "w = oi \<or> pre (m ! w) \<noteq> None" if "w < length ns0" and "potential (m ! w) \<noteq> Infinity" for w
      using that by (rule I(9))
    show "pred_ok h ns0 (D @ [?cur]) m v p" if "v < length ns0" and "pre (m ! v) = Some p" for v p
    proof -
      from I(10) [OF that] obtain k where k: "k < length D" and p: "p = int (D ! k) + 1"
        and fin: "potential (m ! (D ! k)) \<noteq> Infinity"
        and lk: "\<exists>r \<in> set (forwardStar (ns0 ! (D ! k))). head (h r) = int v + 1"
        and ord: "\<forall>k' < length D. D ! k' = v \<longrightarrow> k < k'"
        unfolding pred_ok_def by blast
      have "k < k'" if "k' < length (D @ [?cur])" and "(D @ [?cur]) ! k' = v" for k'
      proof (cases "k' < length D")
        case True
        with that ord show ?thesis
          by (simp add: nth_append)
      next
        case False
        with that k show ?thesis
          by simp
      qed
      then have ord': "\<forall>k' < length (D @ [?cur]). (D @ [?cur]) ! k' = v \<longrightarrow> k < k'"
        by blast
      have nth: "(D @ [?cur]) ! k = D ! k"
        using k by (simp add: nth_append)
      have k': "k < length (D @ [?cur])"
        using k by simp
      show ?thesis
        unfolding pred_ok_def nth
        using k' p fin lk ord' nth by metis
    qed
  qed
qed

lemma padd_ge: "Finite 0 \<le> p \<Longrightarrow> 0 \<le> c \<Longrightarrow> p \<le> padd p c"
  using max_float_pos by (cases p) (simp_all add: overflow_def)

lemma pfloat_not_less: "(x :: pfloat) \<le> y \<Longrightarrow> \<not> y < x"
  by simp

lemma step_relax:
  assumes inv: "dijkstra_inv h ns0 oi (D @ [cur]) js m"
    and good: "good_star h ns0"
    and r: "r \<in> set (forwardStar (ns0 ! cur))"
  shows "\<exists>m1. relax h cur m r = Inr m1 \<and> dijkstra_inv h ns0 oi (D @ [cur]) js m1"
proof -
  note I = dijkstra_invD [OF inv]
  let ?D = "D @ [cur]"
  let ?n = "length ns0"
  have len: "length m = ?n"
    using I(1) by (rule static_length)
  have cur: "cur < ?n"
    using I(3) by simp
  from good cur r obtain c where c: "cost (h r) = Some (Float (Num (Finite c)))" "0 \<le> c"
    and hd: "1 \<le> head (h r)" "head (h r) \<le> int ?n" and idc: "ID (ns0 ! cur) = int cur + 1"
    unfolding good_star_def by blast
  define j where "j = nat (head (h r) - 1)"
  have j: "j < ?n" and hj: "head (h r) = int j + 1"
    using hd by (simp_all add: j_def)
  have pj: "py_index m (head (h r) - 1) = Inr j"
    using hd len by (simp add: py_index_def j_def)
  let ?P = "padd (potential (m ! cur)) c"
  have last: "?D ! length D = cur"
    by simp
  have le_cur: "potential (m ! s) \<le> potential (m ! cur)" if "s \<in> set ?D" for s
  proof -
    from that obtain k where "k < length ?D" and "?D ! k = s"
      by (metis in_set_conv_nth)
    with I(4) [of "length D" k] last show ?thesis
      by simp
  qed
  show ?thesis
  proof (cases "?P < potential (m ! j)")
    case False
    with pj c have "relax h cur m r = Inr m"
      by (simp add: relax_def fadd_padd)
    with inv show ?thesis
      by simp
  next
    case True
    define m1 where "m1 = m[j := (m ! j)\<lparr>potential := ?P, pre := Some (ID (m ! cur))\<rparr>]"
    from True pj c have rel: "relax h cur m r = Inr m1"
      by (simp add: relax_def m1_def fadd_padd)
    have ge: "potential (m ! cur) \<le> ?P"
      using I(8) [OF cur] c(2) by (rule padd_ge)
    have jD: "j \<notin> set ?D"
    proof
      assume "j \<in> set ?D"
      then have "potential (m ! j) \<le> ?P"
        using le_cur [of j] ge by simp
      with True show False
        by simp
    qed
    then have jc: "j \<noteq> cur"
      by auto
    have fin: "potential (m ! cur) \<noteq> Infinity" and finP: "?P \<noteq> Infinity"
      using padd_finite [OF True] by simp_all
    have P0: "Finite 0 \<le> ?P"
      using I(8) [OF cur] c(2) by (rule padd_nonneg)
    have joi: "j \<noteq> oi"
    proof
      assume "j = oi"
      with True I(6) have "?P < Finite 0"
        by simp
      with P0 show False
        by simp
    qed
    have idm: "ID (m ! cur) = int cur + 1"
      using static_forwardStar(2) [OF I(1) cur] idc by simp
    have at_j: "potential (m1 ! j) = ?P" "pre (m1 ! j) = Some (int cur + 1)"
      using j len idm by (simp_all add: m1_def)
    have other: "m1 ! w = m ! w" if "w \<noteq> j" for w
      using that by (simp add: m1_def)
    have inD: "m1 ! s = m ! s" if "s \<in> set ?D" for s
      using that jD other [of s] by auto
    have "dijkstra_inv h ns0 oi ?D js m1"
    proof (rule dijkstra_invI)
      show "map ResetPotential m1 = map ResetPotential ns0"
        using relax_static [OF rel] I(1) by simp
      show "distinct (?D @ js)" and "set (?D @ js) \<subseteq> {..<?n}"
        by (rule I(2), rule I(3))
      show "potential (m1 ! (?D ! k)) \<le> potential (m1 ! (?D ! k'))"
        if "k' < length ?D" and "k \<le> k'" for k k'
      proof -
        from that have "k < length ?D" and "k' < length ?D"
          by simp_all
        then have "?D ! k \<in> set ?D" and "?D ! k' \<in> set ?D"
          using nth_mem by blast+
        then have "m1 ! (?D ! k) = m ! (?D ! k)" and "m1 ! (?D ! k') = m ! (?D ! k')"
          using inD by blast+
        with I(4) [OF that] show ?thesis
          by simp
      qed
      show "potential (m1 ! s) \<le> potential (m1 ! w)" if "s \<in> set ?D" and "w \<in> set js" for s w
      proof (cases "w = j")
        case True
        have "potential (m ! s) \<le> ?P"
          using le_cur [OF that(1)] ge by simp
        with True at_j inD [OF that(1)] show ?thesis
          by simp
      next
        case False
        with I(5) [OF that] inD [OF that(1)] other [of w] show ?thesis
          by simp
      qed
      show "potential (m1 ! oi) = Finite 0" and "pre (m1 ! oi) = None"
        using other [of oi] joi I(6,7) by simp_all
      show "Finite 0 \<le> potential (m1 ! w)" if "w < ?n" for w
        using I(8) [OF that] P0 at_j other [of w] by (cases "w = j") simp_all
      show "w = oi \<or> pre (m1 ! w) \<noteq> None" if "w < ?n" and "potential (m1 ! w) \<noteq> Infinity" for w
        using I(9) [of w] that at_j other [of w] by (cases "w = j") simp_all
      show "pred_ok h ns0 ?D m1 v p" if "v < ?n" and "pre (m1 ! v) = Some p" for v p
      proof (cases "v = j")
        case True
        with that at_j have p: "p = int (?D ! length D) + 1"
          by simp
        have "potential (m1 ! (?D ! length D)) \<noteq> Infinity"
          using fin inD [of cur] by simp
        moreover have "\<exists>r \<in> set (forwardStar (ns0 ! (?D ! length D))). head (h r) = int v + 1"
          using r hj True by auto
        moreover have "\<forall>k' < length ?D. ?D ! k' = v \<longrightarrow> length D < k'"
          using jD True by (metis nth_mem)
        moreover have "length D < length ?D"
          by simp
        ultimately show ?thesis
          unfolding pred_ok_def using p by blast
      next
        case False
        with that other [of v] have "pre (m ! v) = Some p"
          by simp
        from I(10) [OF that(1) this] obtain k where k: "k < length ?D" and p: "p = int (?D ! k) + 1"
          and f: "potential (m ! (?D ! k)) \<noteq> Infinity"
          and lk: "\<exists>r \<in> set (forwardStar (ns0 ! (?D ! k))). head (h r) = int v + 1"
          and ord: "\<forall>k' < length ?D. ?D ! k' = v \<longrightarrow> k < k'"
          unfolding pred_ok_def by blast
        have "m1 ! (?D ! k) = m ! (?D ! k)"
          using k by (intro inD nth_mem)
        with f have "potential (m1 ! (?D ! k)) \<noteq> Infinity"
          by simp
        with k p lk ord show ?thesis
          unfolding pred_ok_def by blast
      qed
    qed
    with rel show ?thesis
      by blast
  qed
qed

lemma relax_all_dijkstra:
  assumes "dijkstra_inv h ns0 oi (D @ [cur]) js m"
    and "good_star h ns0"
    and "set rs \<subseteq> set (forwardStar (ns0 ! cur))"
  shows "\<exists>m1. relax_all h cur rs m = Inr m1 \<and> dijkstra_inv h ns0 oi (D @ [cur]) js m1"
  using assms
proof (induction rs arbitrary: m)
  case Nil
  then show ?case by simp
next
  case (Cons r rs)
  from Cons.prems have "r \<in> set (forwardStar (ns0 ! cur))"
    by simp
  with Cons.prems(1,2) obtain m1 where r1: "relax h cur m r = Inr m1"
    and i1: "dijkstra_inv h ns0 oi (D @ [cur]) js m1"
    using step_relax by blast
  from Cons.prems(3) have "set rs \<subseteq> set (forwardStar (ns0 ! cur))"
    by simp
  from Cons.IH [OF i1 Cons.prems(2) this] r1 show ?case
    by simp
qed

lemma SP_loop_dijkstra:
  assumes "good_star h ns0"
    and "dijkstra_inv h ns0 oi D (map nat sl) m"
    and "\<forall>i \<in> set sl. 0 \<le> i"
  shows "\<exists>ns' D'. SP_loop h m sl = Inr ns' \<and> dijkstra_inv h ns0 oi D' [] ns'"
  using assms(2,3)
proof (induction "length sl" arbitrary: sl m D)
  case 0
  then have "sl = []"
    by simp
  with "0.prems"(1) show ?case
    by (auto simp: SP_loop.simps)
next
  case (Suc l)
  then obtain i "is" where sl: "sl = i # is"
    by (cases sl) auto
  note I = dijkstra_invD [OF Suc.prems(1)]
  let ?js = "map nat sl"
  let ?pos = "choose_pos m ?js"
  let ?cur = "?js ! ?pos"
  have len: "length m = length ns0"
    using I(1) by (rule static_length)
  have "\<forall>i \<in> set sl. 0 \<le> i \<and> nat i < length m"
    using I(3) Suc.prems(2) len by auto
  then have pos_eq: "positions m sl = Inr ?js"
    by (rule positions_in_range)
  have ne: "?js \<noteq> []"
    using sl by simp
  have pos: "?pos < length ?js"
    using ne by (rule choose_pos_less)
  have "?cur \<in> set (D @ ?js)"
    using nth_mem [OF pos] by (simp del: nth_map set_map)
  then have cur: "?cur < length ns0"
    using I(3) by blast
  have sel: "dijkstra_inv h ns0 oi (D @ [?cur]) (pop ?js ?pos) m"
    using Suc.prems(1) ne by (rule step_select)
  have fs: "forwardStar (m ! ?cur) = forwardStar (ns0 ! ?cur)"
    using I(1) cur by (rule static_forwardStar(1))
  from relax_all_dijkstra [OF sel assms(1), of "forwardStar (ns0 ! ?cur)"]
  obtain m1 where ra: "relax_all h ?cur (forwardStar (ns0 ! ?cur)) m = Inr m1"
    and i1: "dijkstra_inv h ns0 oi (D @ [?cur]) (pop ?js ?pos) m1"
    by auto
  have pop_map: "map nat (pop sl ?pos) = pop ?js ?pos"
    by (rule map_pop)
  have l: "l = length (pop sl ?pos)"
    using Suc.hyps(2) pos by (simp add: pop_def)
  have nonneg: "\<forall>i \<in> set (pop sl ?pos). 0 \<le> i"
    using Suc.prems(2) set_pop [of sl ?pos] by auto
  from Suc.hyps(1) [OF l, of "D @ [?cur]" m1] i1 pop_map nonneg
  obtain ns' D' where "SP_loop h m1 (pop sl ?pos) = Inr ns'" and "dijkstra_inv h ns0 oi D' [] ns'"
    by auto
  moreover have "SP_loop h m sl = SP_loop h m1 (pop sl ?pos)"
    using pos_eq ra fs sl by (simp add: SP_loop.simps Let_def del: positions.simps)
  ultimately show ?case
    by auto
qed

lemma index_of_notin: "x \<notin> set xs \<Longrightarrow> index_of x xs = length xs"
  by (induction xs) auto

lemma index_of_distinct: "distinct xs \<Longrightarrow> k < length xs \<Longrightarrow> index_of (xs ! k) xs = k"
proof (induction xs arbitrary: k)
  case Nil
  then show ?case by simp
next
  case (Cons a xs)
  then show ?case
    by (cases k) auto
qed

lemma pred_rank:
  assumes inv: "dijkstra_inv h ns0 oi D js m" and v: "v < length ns0" and p: "pre (m ! v) = Some p"
  obtains u r where "u < length ns0" and "p = int u + 1" and "index_of u D < index_of v D"
    and "potential (m ! u) \<noteq> Infinity" and "r \<in> set (forwardStar (ns0 ! u))"
    and "head (h r) = int v + 1"
proof -
  note I = dijkstra_invD [OF inv]
  from I(10) [OF v p] obtain k r where k: "k < length D" and pk: "p = int (D ! k) + 1"
    and fin: "potential (m ! (D ! k)) \<noteq> Infinity"
    and r: "r \<in> set (forwardStar (ns0 ! (D ! k)))" "head (h r) = int v + 1"
    and ord: "\<forall>k' < length D. D ! k' = v \<longrightarrow> k < k'"
    unfolding pred_ok_def by blast
  have dD: "distinct D"
    using I(2) by simp
  have rk: "index_of (D ! k) D = k"
    using dD k by (rule index_of_distinct)
  have "k < index_of v D"
  proof (cases "v \<in> set D")
    case True
    then have "index_of v D < length D" and "D ! index_of v D = v"
      by (rule index_of_less, rule index_of_nth)
    with ord show ?thesis
      by blast
  next
    case False
    then show ?thesis
      using k by (simp add: index_of_notin)
  qed
  moreover have "D ! k < length ns0"
    using I(3) nth_mem [OF k] by auto
  ultimately show ?thesis
    using pk fin r rk by (intro that [of "D ! k" r]) simp_all
qed

lemma table_nth: "v < length ns \<Longrightarrow> table ns ! v = (potential (ns ! v), pre (ns ! v))"
  by (simp add: table_def)

lemma py_index_ID: "v < length xs \<Longrightarrow> py_index xs (int v + 1 - 1) = Inr v"
  by (simp add: py_index_def)

lemma trace_dijkstra:
  assumes inv: "dijkstra_inv h ns0 oi D js ns'"
    and keys: "\<forall>u < length ns0. \<forall>r \<in> set (forwardStar (ns0 ! u)). (int u + 1, head (h r)) \<in> fst ` set fl0"
  shows "v < length ns0 \<Longrightarrow> map fst fl = map fst fl0
         \<Longrightarrow> \<exists>fl'. trace (table ns') demands (int v + 1) fl = Some (Inr fl') \<and> map fst fl' = map fst fl0"
proof (induction "index_of v D" arbitrary: v fl rule: less_induct)
  case less
  note I = dijkstra_invD [OF inv]
  have len: "length ns' = length ns0"
    using I(1) by (rule static_length)
  have idx: "py_index (table ns') (int v + 1 - 1) = Inr v"
    using less.prems(1) len by (intro py_index_ID) (simp add: table_def)
  have tv: "snd (table ns' ! v) = pre (ns' ! v)"
    using less.prems(1) len by (simp add: table_nth)
  show ?case
  proof (cases "pre (ns' ! v)")
    case None
    with idx tv have "trace (table ns') demands (int v + 1) fl = Some (Inr fl)"
      by (subst trace.simps) simp
    with less.prems(2) show ?thesis
      by simp
  next
    case (Some p)
    from inv less.prems(1) Some obtain u r where u: "u < length ns0" and p: "p = int u + 1"
      and rank: "index_of u D < index_of v D" and r: "r \<in> set (forwardStar (ns0 ! u))"
      and hd: "head (h r) = int v + 1"
      by (rule pred_rank)
    from keys u r have "(int u + 1, head (h r)) \<in> fst ` set fl0"
      by blast
    with hd p have "(p, int v + 1) \<in> fst ` set fl0"
      by simp
    then have "(p, int v + 1) \<in> fst ` set fl"
      using less.prems(2) by (metis set_map)
    then obtain val where val: "map_of fl (p, int v + 1) = Some val"
      by (metis domIff dom_map_of_conv_image_fst not_Some_eq)
    let ?fl1 = "AList.update (p, int v + 1) (val + demands) fl"
    have k1: "map fst ?fl1 = map fst fl0"
      using val less.prems(2) by (simp add: update_keys_mem)
    from less.hyps [OF rank u k1] obtain fl' where
      "trace (table ns') demands (int u + 1) ?fl1 = Some (Inr fl')" and "map fst fl' = map fst fl0"
      by blast
    moreover have "trace (table ns') demands (int v + 1) fl = trace (table ns') demands p ?fl1"
      using idx tv Some val by (subst trace.simps) simp
    ultimately show ?thesis
      using p by auto
  qed
qed

lemma walk_dijkstra:
  assumes inv: "dijkstra_inv h ns0 oi D js ns'"
  shows "v < length ns0
         \<Longrightarrow> walk (table ns') (int v + 1) (if pre (ns' ! v) = None then int v + 1 else int oi + 1)"
proof (induction "index_of v D" arbitrary: v rule: less_induct)
  case less
  note I = dijkstra_invD [OF inv]
  have len: "length ns' = length ns0"
    using I(1) by (rule static_length)
  have idx: "py_index (table ns') (int v + 1 - 1) = Inr v"
    using less.prems(1) len by (intro py_index_ID) (simp add: table_def)
  have tv: "snd (table ns' ! v) = pre (ns' ! v)"
    using less.prems(1) len by (simp add: table_nth)
  show ?case
  proof (cases "pre (ns' ! v)")
    case None
    with idx tv show ?thesis
      by (simp add: walk.stop)
  next
    case (Some p)
    from inv less.prems(1) Some obtain u r where u: "u < length ns0" and p: "p = int u + 1"
      and rank: "index_of u D < index_of v D" and fin: "potential (ns' ! u) \<noteq> Infinity"
      by (rule pred_rank)
    have "walk (table ns') (int u + 1) (int oi + 1)"
    proof (cases "pre (ns' ! u)")
      case None
      with I(9) [OF u fin] have "u = oi"
        by simp
      with less.hyps [OF rank u] None show ?thesis
        by simp
    next
      case (Some q)
      with less.hyps [OF rank u] show ?thesis
        by simp
    qed
    with idx tv Some p show ?thesis
      by (auto intro: walk.step)
  qed
qed

lemma those_map_Some: "those (map Some ns) = Some ns"
  by (induction ns) simp_all

lemma wf_networkE:
  assumes "wf_network net"
  obtains ns where "nodes net = map Some ns" and "numNodes net = Some (int (length ns))"
    and "1 \<le> firstThroughNode net" and "good_star (linkObj net) ns"
    and "\<forall>u < length ns. \<forall>r \<in> set (forwardStar (ns ! u)).
           (int u + 1, head (linkObj net r)) \<in> fst ` set (links net)"
    and "ods_in_range (length ns) (ODpairs net)"
proof -
  from assms obtain ns where ns: "those (nodes net) = Some ns"
    by (auto simp: wf_network_def split: option.splits)
  with assms have all: "numNodes net = Some (int (length ns)) \<and> 1 \<le> firstThroughNode net \<and>
          good_star (linkObj net) ns \<and>
          (\<forall>u < length ns. \<forall>r \<in> set (forwardStar (ns ! u)).
               tail (linkObj net r) = int u + 1 \<and>
               (int u + 1, head (linkObj net r)) \<in> fst ` set (links net)) \<and>
          ods_in_range (length ns) (ODpairs net)"
    unfolding wf_network_def by (simp only: option.case) blast
  then have w: "numNodes net = Some (int (length ns))" "1 \<le> firstThroughNode net"
    "good_star (linkObj net) ns" "ods_in_range (length ns) (ODpairs net)"
    and t: "\<forall>u < length ns. \<forall>r \<in> set (forwardStar (ns ! u)).
               tail (linkObj net r) = int u + 1 \<and>
               (int u + 1, head (linkObj net r)) \<in> fst ` set (links net)"
    by blast+
  have "\<forall>u < length ns. \<forall>r \<in> set (forwardStar (ns ! u)).
           (int u + 1, head (linkObj net r)) \<in> fst ` set (links net)"
  proof (intro allI impI ballI)
    fix u r
    assume "u < length ns" and "r \<in> set (forwardStar (ns ! u))"
    with t show "(int u + 1, head (linkObj net r)) \<in> fst ` set (links net)"
      by blast
  qed
  with those_Some [OF ns] w show ?thesis
    by (intro that [of ns])
qed

lemma upto_nat_distinct: "0 \<le> a \<Longrightarrow> distinct (map nat [a..b])"
  by (auto simp: distinct_map inj_on_def)

lemma start_inv:
  assumes oi: "oi < length ns" and ftn: "1 \<le> ftn"
  shows "dijkstra_inv h ns oi [] (map nat [ftn - 1 .. int (length ns) - 1])
           ((map ResetPotential ns)[oi := (ResetPotential (ns ! oi))\<lparr>potential := Finite 0\<rparr>])"
proof -
  let ?start = "(map ResetPotential ns)[oi := (ResetPotential (ns ! oi))\<lparr>potential := Finite 0\<rparr>]"
  have at_oi: "potential (?start ! oi) = Finite 0" "pre (?start ! oi) = None"
    using oi by (simp_all add: ResetPotential_def)
  have other: "potential (?start ! w) = Infinity \<and> pre (?start ! w) = None"
    if "w < length ns" and "w \<noteq> oi" for w
    using that by (simp add: ResetPotential_def)
  show ?thesis
  proof (rule dijkstra_invI)
    show "map ResetPotential ?start = map ResetPotential ns"
      using map_Reset_update [of "(ResetPotential (ns ! oi))\<lparr>potential := Finite 0\<rparr>" "map ResetPotential ns" oi]
        oi by simp
    show "distinct ([] @ map nat [ftn - 1 .. int (length ns) - 1])"
      using ftn by (simp add: upto_nat_distinct)
    show "set ([] @ map nat [ftn - 1 .. int (length ns) - 1]) \<subseteq> {..<length ns}"
      using ftn by auto
    show "potential (?start ! ([] ! k)) \<le> potential (?start ! ([] ! k'))"
      if "k' < length ([] :: nat list)" for k k'
      using that by simp
    show "potential (?start ! s) \<le> potential (?start ! w)" if "s \<in> set []" for s w
      using that by simp
    show "potential (?start ! oi) = Finite 0" and "pre (?start ! oi) = None"
      by (rule at_oi)+
    show "Finite 0 \<le> potential (?start ! w)" if "w < length ns" for w
      using at_oi other [OF that] by (cases "w = oi") simp_all
    show "w = oi \<or> pre (?start ! w) \<noteq> None" if "w < length ns" and "potential (?start ! w) \<noteq> Infinity" for w
      using other [of w] that by blast
    show "pred_ok h ns [] ?start v p" if "v < length ns" and "pre (?start ! v) = Some p" for v p
      using at_oi other [of v] that by (cases "v = oi") simp_all
  qed
qed

lemma ShortestPath_dijkstra:
  assumes sp: "ShortestPath net origin' = Inr (net', T)"
    and ns: "nodes net = map Some ns" and nn: "numNodes net = Some (int (length ns))"
    and ftn: "1 \<le> firstThroughNode net" and good: "good_star (linkObj net) ns"
    and oi: "py_index (nodes net) (origin' - 1) = Inr oi"
  obtains ns' D where "net' = net\<lparr>nodes := map Some ns'\<rparr>" and "T = table ns'"
    and "dijkstra_inv (linkObj net) ns oi D [] ns'"
proof -
  from sp obtain ns1 oi' n ns' where ns1: "nodes net = map Some ns1"
    and oi': "py_index ns1 (origin' - 1) = Inr oi'" and n: "numNodes net = Some n"
    and loop: "SP_loop (linkObj net) ((map ResetPotential ns1)[oi' := (ResetPotential (ns1 ! oi'))\<lparr>potential := Finite 0\<rparr>])
           [firstThroughNode net - 1 .. n - 1] = Inr ns'"
    and net': "net' = net\<lparr>nodes := map Some ns'\<rparr>" and T: "T = table ns'"
    by (rule ShortestPath_Inr)
  have eq: "ns1 = ns"
    using ns ns1 by (simp add: inj_map_eq_map)
  have "oi' = oi"
    using oi oi' ns eq py_index_length [of "nodes net" ns] by simp
  have n_eq: "n = int (length ns)"
    using n nn by simp
  have oi_less: "oi < length ns"
    using oi' \<open>oi' = oi\<close> eq py_index_less by blast
  have "dijkstra_inv (linkObj net) ns oi [] (map nat [firstThroughNode net - 1 .. int (length ns) - 1])
           ((map ResetPotential ns)[oi := (ResetPotential (ns ! oi))\<lparr>potential := Finite 0\<rparr>])"
    using oi_less ftn by (rule start_inv)
  moreover have "\<forall>i \<in> set [firstThroughNode net - 1 .. int (length ns) - 1]. 0 \<le> i"
    using ftn by simp
  ultimately obtain ns'' D where "SP_loop (linkObj net) ((map ResetPotential ns)[oi := (ResetPotential (ns ! oi))\<lparr>potential := Finite 0\<rparr>])
           [firstThroughNode net - 1 .. int (length ns) - 1] = Inr ns''"
    and inv: "dijkstra_inv (linkObj net) ns oi D [] ns''"
    using SP_loop_dijkstra [OF good] by blast
  with loop eq \<open>oi' = oi\<close> n_eq have "ns'' = ns'"
    by simp
  with inv net' T show ?thesis
    by (intro that [of ns' D]) simp_all
qed

lemma ShortestPath_returns:
  assumes ns: "nodes net = map Some ns" and nn: "numNodes net = Some (int (length ns))"
    and ftn: "1 \<le> firstThroughNode net" and good: "good_star (linkObj net) ns"
    and o: "1 \<le> origin'" "origin' \<le> int (length ns)"
  shows "\<exists>net' T. ShortestPath net origin' = Inr (net', T)"
proof -
  let ?oi = "nat (origin' - 1)"
  have oi: "py_index (map ResetPotential ns) (origin' - 1) = Inr ?oi"
    using o by (simp add: py_index_def)
  have oi_less: "?oi < length ns"
    using o by simp
  have "dijkstra_inv (linkObj net) ns ?oi [] (map nat [firstThroughNode net - 1 .. int (length ns) - 1])
           ((map ResetPotential ns)[?oi := (ResetPotential (ns ! ?oi))\<lparr>potential := Finite 0\<rparr>])"
    using oi_less ftn by (rule start_inv)
  moreover have "\<forall>i \<in> set [firstThroughNode net - 1 .. int (length ns) - 1]. 0 \<le> i"
    using ftn by simp
  ultimately obtain ns'' where "SP_loop (linkObj net) ((map ResetPotential ns)[?oi := (ResetPotential (ns ! ?oi))\<lparr>potential := Finite 0\<rparr>])
           [firstThroughNode net - 1 .. int (length ns) - 1] = Inr ns''"
    using SP_loop_dijkstra [OF good] by blast
  with oi oi_less ns nn show ?thesis
    by (simp add: ShortestPath_def those_map_Some Let_def)
qed

lemma good_star_static:
  assumes "good_star h ns" and "map ResetPotential ns' = map ResetPotential ns"
  shows "good_star h ns'"
proof -
  have len: "length ns' = length ns"
    using assms(2) by (rule static_length)
  have "forwardStar (ns' ! u) = forwardStar (ns ! u) \<and> ID (ns' ! u) = ID (ns ! u)" if "u < length ns" for u
    using static_forwardStar [OF assms(2) that] by simp
  with assms(1) len show ?thesis
    unfolding good_star_def by simp
qed

lemma wf_network_static:
  assumes wf: "wf_network net" and ns: "nodes net = map Some ns"
    and st: "map ResetPotential ns' = map ResetPotential ns"
  shows "wf_network (net\<lparr>nodes := map Some ns'\<rparr>)"
proof -
  have len: "length ns' = length ns"
    using st by (rule static_length)
  have fs: "forwardStar (ns' ! u) = forwardStar (ns ! u)" if "u < length ns" for u
    using static_forwardStar(1) [OF st that] .
  from wf ns have all: "numNodes net = Some (int (length ns)) \<and> 1 \<le> firstThroughNode net \<and>
          good_star (linkObj net) ns \<and>
          (\<forall>u < length ns. \<forall>r \<in> set (forwardStar (ns ! u)).
               tail (linkObj net r) = int u + 1 \<and>
               (int u + 1, head (linkObj net r)) \<in> fst ` set (links net)) \<and>
          ods_in_range (length ns) (ODpairs net)"
    unfolding wf_network_def by (simp only: those_map_Some option.case) blast
  then have "good_star (linkObj net) ns'"
    using st by (blast intro: good_star_static)
  with all len fs show ?thesis
    unfolding wf_network_def by (simp add: those_map_Some)
qed

lemma AON_dests_returns:
  assumes inv: "dijkstra_inv h ns0 oi D js ns'"
    and keys: "\<forall>u < length ns0. \<forall>r \<in> set (forwardStar (ns0 ! u)). (int u + 1, head (h r)) \<in> fst ` set fl0"
  shows "\<forall>(d, od) \<in> set dests. 1 \<le> d \<and> d \<le> int (length ns0) \<Longrightarrow> map fst fl = map fst fl0
         \<Longrightarrow> \<exists>fl'. AON_dests (table ns') dests fl = Some (Inr fl') \<and> map fst fl' = map fst fl0"
proof (induction dests arbitrary: fl)
  case Nil
  then show ?case by simp
next
  case (Cons a dests)
  obtain d od where a: "a = (d, od)"
    by (cases a)
  with Cons.prems(1) have d: "1 \<le> d" "d \<le> int (length ns0)"
    by simp_all
  then have v: "nat (d - 1) < length ns0" and dv: "int (nat (d - 1)) + 1 = d"
    by simp_all
  from trace_dijkstra [OF inv keys v Cons.prems(2), of "demand od"] dv
  obtain fl1 where t: "trace (table ns') (demand od) d fl = Some (Inr fl1)" and k: "map fst fl1 = map fst fl0"
    by auto
  from Cons.prems(1) have "\<forall>(d, od) \<in> set dests. 1 \<le> d \<and> d \<le> int (length ns0)"
    by simp
  from Cons.IH [OF this k] a t show ?case
    by simp
qed

lemma AON_origins_returns:
  "wf_network net \<Longrightarrow> ods_in_range (length (nodes net)) ods \<Longrightarrow> map fst fl = map fst (links net)
     \<Longrightarrow> \<exists>net' fl'. AON_origins net ods fl = Some (Inr (net', fl'))"
proof (induction ods arbitrary: net fl)
  case Nil
  then show ?case by simp
next
  case (Cons a ods)
  obtain o' dests where a: "a = (o', dests)"
    by (cases a)
  from Cons.prems(1) obtain ns where ns: "nodes net = map Some ns"
    and nn: "numNodes net = Some (int (length ns))"
    and ftn: "1 \<le> firstThroughNode net" and good: "good_star (linkObj net) ns"
    and keys: "\<forall>u < length ns. \<forall>r \<in> set (forwardStar (ns ! u)).
           (int u + 1, head (linkObj net r)) \<in> fst ` set (links net)"
    by (rule wf_networkE)
  have len: "length (nodes net) = length ns"
    using ns by simp
  from Cons.prems(2) a len have o: "1 \<le> o'" "o' \<le> int (length ns)"
    and ds: "\<forall>(d, od) \<in> set dests. 1 \<le> d \<and> d \<le> int (length ns)"
    and rest: "ods_in_range (length ns) ods"
    by (simp_all add: ods_in_range_def)
  from ShortestPath_returns [OF ns nn ftn good o] obtain net1 T where
    sp: "ShortestPath net o' = Inr (net1, T)"
    by blast
  have oi: "py_index (nodes net) (o' - 1) = Inr (nat (o' - 1))"
    using o len by (simp add: py_index_def)
  from sp ns nn ftn good oi obtain ns' D where net1: "net1 = net\<lparr>nodes := map Some ns'\<rparr>"
    and T: "T = table ns'" and inv: "dijkstra_inv (linkObj net) ns (nat (o' - 1)) D [] ns'"
    by (rule ShortestPath_dijkstra)
  have "fst ` set fl = fst ` set (links net)"
    using Cons.prems(3) by (metis set_map)
  with keys have keys': "\<forall>u < length ns. \<forall>r \<in> set (forwardStar (ns ! u)).
           (int u + 1, head (linkObj net r)) \<in> fst ` set fl"
    by simp
  from AON_dests_returns [OF inv keys' ds, of fl] T obtain fl1 where
    d1: "AON_dests T dests fl = Some (Inr fl1)" and k1: "map fst fl1 = map fst fl"
    by auto
  have st: "map ResetPotential ns' = map ResetPotential ns"
    using dijkstra_invD(1) [OF inv] .
  have wf1: "wf_network net1"
    unfolding net1 using Cons.prems(1) ns st by (rule wf_network_static)
  have len1: "length (nodes net1) = length ns"
    using net1 static_length [OF st] by simp
  have "map fst fl1 = map fst (links net1)"
    using k1 Cons.prems(3) net1 by simp
  from Cons.IH [OF wf1 _ this] rest len1 obtain net' fl' where
    "AON_origins net1 ods fl1 = Some (Inr (net', fl'))"
    by auto
  with a sp d1 show ?case
    by simp
qed

lemma AON_returns:
  assumes "wf_network net"
  shows "\<exists>net' AON_flow. AON net = Some (Inr (net', AON_flow))"
proof -
  from assms obtain ns where "nodes net = map Some ns" and "ods_in_range (length ns) (ODpairs net)"
    by (rule wf_networkE)
  then have "ods_in_range (length (nodes net)) (ODpairs net)"
    by simp
  moreover have "map fst (map (\<lambda>(ij, r). (ij, 0 :: real)) (links net)) = map fst (links net)"
    by (simp add: case_prod_unfold comp_def)
  ultimately show ?thesis
    unfolding AON_def using assms by (intro AON_origins_returns)
qed

lemma one_link_wf: "wf_network (one_link 1)"
  by (simp add: wf_network_def good_star_def ods_in_range_def example_defs less_Suc_eq)

lemma back_link_wf: "wf_network back_link"
  by (simp add: wf_network_def good_star_def ods_in_range_def example_defs less_Suc_eq)

lemma AON_unchanged:
  assumes "AON net = Some (Inr (net', AON_flow))"
  shows "map fst AON_flow = map fst (links net) \<and> net' = net\<lparr>nodes := nodes net'\<rparr>
         \<and> links net' = links net \<and> linkObj net' = linkObj net"
proof -
  from AON_origins_frame [OF assms [unfolded AON_def]]
  have k: "map fst AON_flow = map fst (map (\<lambda>(ij, r). (ij, 0 :: real)) (links net))"
    and n: "net' = net\<lparr>nodes := nodes net'\<rparr>"
    by simp_all
  have "map fst (map (\<lambda>(ij, r). (ij, 0 :: real)) (links net)) = map fst (links net)"
    by (simp add: case_prod_unfold comp_def)
  moreover from n have "links net' = links net \<and> linkObj net' = linkObj net"
    by (metis Network.select_convs(6,7) Network.surjective Network.update_convs(3))
  ultimately show ?thesis
    using k n by simp
qed

text \<open>
  Claim C4. On every well-formed network AON returns; and whenever AON returns, on any
  network, the result is a dictionary with exactly the keys (tail, head) of
  \<open>self.links\<close>, in their order, each with a flow value, and the network differs from
  the one before the call in its nodes only (the search state left by ShortestPath):
  the \<open>links\<close> dictionary and every Link object, its flow included, are the same.
\<close>

theorem AON_frame:
  "(wf_network net \<longrightarrow> (\<exists>net' AON_flow. AON net = Some (Inr (net', AON_flow)))) \<and>
   (\<forall>net' AON_flow. AON net = Some (Inr (net', AON_flow)) \<longrightarrow>
      map fst AON_flow = map fst (links net) \<and> net' = net\<lparr>nodes := nodes net'\<rparr>
      \<and> links net' = links net \<and> linkObj net' = linkObj net)"
proof (intro conjI allI impI)
  assume "wf_network net"
  then show "\<exists>net' AON_flow. AON net = Some (Inr (net', AON_flow))"
    by (rule AON_returns)
next
  fix net' AON_flow
  assume a: "AON net = Some (Inr (net', AON_flow))"
  from AON_unchanged [OF a] show "map fst AON_flow = map fst (links net)"
    and "net' = net\<lparr>nodes := nodes net'\<rparr>" and "links net' = links net"
    and "linkObj net' = linkObj net"
    by simp_all
qed

theorem AON_frame_witness:
  "wf_network (one_link 1)
   \<and> AON (one_link 1) = Some (Inr (one_link_searched, [((1, 2), 50)]))
   \<and> map fst [((1 :: int, 2 :: int), 50 :: real)] = map fst (links (one_link 1))
   \<and> links one_link_searched = links (one_link 1)
   \<and> linkObj one_link_searched = linkObj (one_link 1)"
proof -
  have a: "AON (one_link 1) = Some (Inr (one_link_searched, [((1, 2), 50)]))"
    by (simp add: one_link_searched_def example_defs eval_defs)
  from AON_frame [of "one_link 1"] a one_link_wf show ?thesis
    by simp
qed

section \<open>AON: the walk over the predecessors\<close>

text \<open>
  Claim C3 says that AON raises a fatal error when the predecessor chain of an OD pair
  ends before the origin. AON has no such check: the loop stops at the first node
  without predecessor, whatever node that is. Amended claim C3: for an OD pair whose
  destination cannot be reached from the origin (under the through-node restriction),
  the destination has no predecessor in the table of the search, so the walk ends at
  once: nothing is raised and the pair's demand is added to no link. On a well-formed
  network the walk from a destination that has a predecessor ends exactly at the
  origin, and the walk from a destination without predecessor ends at the destination
  itself.
\<close>

theorem AON_walk_ends:
  assumes sp: "ShortestPath net origin' = Inr (net', SPath)"
    and oi: "py_index (nodes net) (origin' - 1) = Inr oi"
    and dj: "py_index (nodes net) (d - 1) = Inr dj"
  shows "(\<not> reachable net oi dj \<longrightarrow> trace SPath demands d AON_flow = Some (Inr AON_flow)) \<and>
         (wf_network net \<and> 1 \<le> origin' \<and> 1 \<le> d
            \<longrightarrow> walk SPath d (if snd (SPath ! dj) = None then d else origin'))"
proof (intro conjI impI)
  assume unreach: "\<not> reachable net oi dj"
  have "dj < length (nodes net)"
    using dj by (rule py_index_less)
  with sp oi obtain ns' where "SPath = table ns'" and "dj < length ns'"
    and "pre (ns' ! dj) = None"
    using unreach by (rule unreachable_node)
  then have "snd (SPath ! dj) = None"
    by (simp add: table_def)
  moreover have "py_index SPath (d - 1) = Inr dj"
    using dj py_index_length [OF ShortestPath_frame(2) [OF sp]] by simp
  ultimately show "trace SPath demands d AON_flow = Some (Inr AON_flow)"
    by (subst trace.simps) simp
next
  assume "wf_network net \<and> 1 \<le> origin' \<and> 1 \<le> d"
  then have wf: "wf_network net" and o: "1 \<le> origin'" and d: "1 \<le> d"
    by simp_all
  from wf obtain ns where ns: "nodes net = map Some ns"
    and nn: "numNodes net = Some (int (length ns))"
    and ftn: "1 \<le> firstThroughNode net" and good: "good_star (linkObj net) ns"
    by (rule wf_networkE)
  from sp ns nn ftn good oi obtain ns' D where T: "SPath = table ns'"
    and inv: "dijkstra_inv (linkObj net) ns oi D [] ns'"
    by (rule ShortestPath_dijkstra)
  have djl: "dj < length ns"
    using dj ns py_index_less by fastforce
  have len: "length ns' = length ns"
    using dijkstra_invD(1) [OF inv] by (rule static_length)
  have d_eq: "int dj + 1 = d"
    using dj d by (auto simp: py_index_def Let_def split: if_splits)
  have o_eq: "int oi + 1 = origin'"
    using oi o by (auto simp: py_index_def Let_def split: if_splits)
  have "snd (SPath ! dj) = pre (ns' ! dj)"
    using T djl len by (simp add: table_nth)
  moreover have "walk SPath d (if pre (ns' ! dj) = None then d else origin')"
    using walk_dijkstra [OF inv djl] unfolding T d_eq o_eq .
  ultimately show "walk SPath d (if snd (SPath ! dj) = None then d else origin')"
    by simp
qed

lemma one_link_walk_facts:
  "py_index (nodes (one_link 1)) (1 - 1) = Inr 0" "py_index (nodes (one_link 1)) (2 - 1) = Inr (Suc 0)"
  by (simp_all add: example_defs py_index_def)

theorem AON_walk_ends_witness:
  "ShortestPath back_link 1 = Inr (back_link_searched, [(Finite 0, None), (Infinity, None)])
   \<and> \<not> reachable back_link 0 (Suc 0)
   \<and> trace [(Finite 0, None), (Infinity, None)] 50 2 [((2, 1), 0)] = Some (Inr [((2, 1), 0)])
   \<and> ShortestPath (one_link 1) 1 = Inr (one_link_searched, [(Finite 0, None), (Finite 10, Some 1)])
   \<and> wf_network (one_link 1)
   \<and> walk [(Finite 0, None), (Finite 10, Some 1)] 2 1"
proof -
  have oi: "py_index (nodes back_link) (1 - 1) = Inr 0"
    by (simp add: example_defs py_index_def)
  have dj: "py_index (nodes back_link) (2 - 1) = Inr (Suc 0)"
    by (simp add: example_defs py_index_def)
  from AON_walk_ends [OF back_link_search oi dj, of 50 "[((2, 1), 0)]"]
    back_link_unreachable
  have a: "trace [(Finite 0, None), (Infinity, None)] 50 2 [((2, 1), 0)] = Some (Inr [((2, 1), 0)])"
    by simp
  from AON_walk_ends [OF one_link_search one_link_walk_facts, of 0 "[]"] one_link_wf
  have b: "walk [(Finite 0, None), (Finite 10, Some 1)] 2 1"
    by simp
  from a b back_link_search back_link_unreachable one_link_search one_link_wf show ?thesis
    by simp
qed

text \<open>
  The counterexample: in the network with the single link from 2 to 1 and the OD pair
  from 1 to 2 of demand 50, AON returns the all-zero dictionary and raises nothing.
\<close>

theorem unreachable_demand_counterexample:
  "AON back_link = Some (Inr (back_link_searched, [((2, 1), 0)]))"
  by (simp add: back_link_searched_def example_defs eval_defs)

section \<open>ReadNetworkFile: the check of the capacity\<close>

lemma read_link_negative:
  "d_capacity d < 0 \<Longrightarrow> read_link net linkID d = Inl BadFileFormatException"
  by (simp add: read_link_def Link_init_def)

lemma read_lines_negative:
  "Data d \<in> set fileLines \<Longrightarrow> d_capacity d < 0 \<Longrightarrow> \<exists>e. read_lines net linkID fileLines = Inl e"
proof (induction fileLines arbitrary: net linkID)
  case Nil
  then show ?case by simp
next
  case (Cons a rest)
  show ?case
  proof (cases a)
    case Blank
    with Cons show ?thesis by auto
  next
    case Malformed
    then show ?thesis by simp
  next
    case (Data d')
    show ?thesis
    proof (cases "read_link net linkID d'")
      case (Inl e)
      with Data show ?thesis by simp
    next
      case (Inr net')
      with Data Cons.prems read_link_negative [of d net linkID] have "Data d \<in> set rest"
        by auto
      from Cons.IH [OF this Cons.prems(2)] Data Inr show ?thesis
        by simp
    qed
  qed
qed

lemma read_lines_append:
  "read_lines net linkID (before @ rest) =
     (case read_lines net linkID before of
        Inl e \<Rightarrow> Inl e
      | Inr (net', linkID') \<Rightarrow> read_lines net' linkID' rest)"
proof (induction before arbitrary: net linkID)
  case Nil
  then show ?case by simp
next
  case (Cons a before)
  then show ?case
    by (cases a) (simp_all split: sum.splits)
qed

text \<open>
  Claim C7 says that a capacity that is not positive is rejected at load time. The check
  of ReadNetworkFile is \<open>capacity < 0\<close> (with the message "has negative parameters").
  Amended claim C7: a data line with a negative capacity raises BadFileFormatException
  when the loader reaches it, before the link's cost is computed and before the link is
  stored, whatever the state of the network and whatever follows in the file; a file
  holding such a line never loads.
\<close>

theorem negative_capacity_rejected:
  assumes "d_capacity d < 0"
  shows "read_link net linkID d = Inl BadFileFormatException
         \<and> (\<forall>before rest net' k. read_lines net linkID before = Inr (net', k)
               \<longrightarrow> read_lines net linkID (before @ Data d # rest) = Inl BadFileFormatException)
         \<and> (\<forall>md fileLines. Data d \<in> set fileLines
               \<longrightarrow> (\<exists>e. ReadNetworkFile net md fileLines = Inl e))"
proof (intro conjI allI impI)
  show "read_link net linkID d = Inl BadFileFormatException"
    using assms by (rule read_link_negative)
next
  fix before rest net' k
  assume "read_lines net linkID before = Inr (net', k)"
  then show "read_lines net linkID (before @ Data d # rest) = Inl BadFileFormatException"
    using read_link_negative [OF assms] by (simp add: read_lines_append)
next
  fix md fileLines
  assume mem: "Data d \<in> set fileLines"
  show "\<exists>e. ReadNetworkFile net md fileLines = Inl e"
  proof (cases "read_metadata md net")
    case (Inl e)
    then show ?thesis
      by (simp add: ReadNetworkFile_def)
  next
    case (Inr net1)
    from read_lines_negative [OF mem assms] obtain e where
      "read_lines (net1\<lparr>tollFactor := Some (case TOLL_FACTOR md of None \<Rightarrow> 0 | Some t \<Rightarrow> t),
                       distanceFactor := Some (case DISTANCE_FACTOR md of None \<Rightarrow> 0 | Some t \<Rightarrow> t)\<rparr>)
         0 fileLines = Inl e"
      by blast
    with Inr show ?thesis
      by (simp add: ReadNetworkFile_def)
  qed
qed

theorem negative_capacity_rejected_witness:
  "d_capacity negative_capacity < 0
   \<and> read_link Network_init 0 negative_capacity = Inl BadFileFormatException
   \<and> ReadNetworkFile Network_init (one_link_metadata 1) (one_link_file @ [Data negative_capacity])
       = Inl BadFileFormatException"
proof -
  have neg: "d_capacity negative_capacity < 0"
    by (simp add: negative_capacity_def)
  have "ReadNetworkFile Network_init (one_link_metadata 1) (one_link_file @ [Data negative_capacity])
       = Inl BadFileFormatException"
    by (simp add: ReadNetworkFile_def read_metadata_def read_link_def add_end_def
      example_defs eval_defs eval_nat_numeral)
  with negative_capacity_rejected [OF neg, of Network_init 0] neg show ?thesis
    by simp
qed

text \<open>
  The counterexample: a capacity of exactly 0 passes the check, and the load fails in
  CalcCost, which divides the flow by the capacity.
\<close>

theorem zero_capacity_counterexample:
  "ReadNetworkFile Network_init (one_link_metadata 1) [Data zero_capacity] = Inl ZeroDivisionError"
  by (simp add: ReadNetworkFile_def read_metadata_def read_link_def add_end_def
      example_defs eval_defs eval_nat_numeral)

section \<open>UE: what the method does\<close>

text \<open>
  Claim C1 describes a pass of the main loop of UE (move, relative change, new flows,
  convergence metric, iteration counter). The code does not reach the loop on a network
  with a link: the first loop of UE calls the dictionary \<open>flow_AON\<close> and raises
  TypeError. The body of the main loop, run on its own on the same network, stores the
  first move that is not 0 and then raises UnboundLocalError at \<open>counter\<close>; it assigns
  neither \<open>converge\<close> nor \<open>IteCou\<close>.
\<close>

theorem UE_raises:
  "UE (one_link 1) (1 / 100) = Some (Inl TypeError)
   \<and> UE_pass (one_link 1) 1 (links (one_link 1)) = Some (Inl UnboundLocalError)"
  by (simp add: UE_def example_defs eval_defs)

section \<open>UE: termination\<close>

lemma UE_loop_no_links:
  assumes "links net = []" and "tolerance < converge"
  shows "UE_loop net converge IteCou tolerance = None"
proof (rule ccontr)
  assume "UE_loop net converge IteCou tolerance \<noteq> None"
  then obtain y where y: "UE_loop net converge IteCou tolerance = Some y"
    by auto
  have "\<not> (links net = [] \<and> tolerance < converge)"
  proof (rule UE_loop.raw_induct
      [where P = "\<lambda>net converge IteCou tolerance y. \<not> (links net = [] \<and> tolerance < converge)", OF _ y])
    fix loop :: "Network \<Rightarrow> real \<Rightarrow> int \<Rightarrow> real \<Rightarrow> (error + Network) option"
      and net converge IteCou tolerance y
    assume IH: "\<And>net converge IteCou tolerance y.
        loop net converge IteCou tolerance = Some y \<Longrightarrow> \<not> (links net = [] \<and> tolerance < converge)"
      and body: "(if tolerance < converge
           then case UE_pass net IteCou (links net) of
                  None \<Rightarrow> None
                | Some (Inl e) \<Rightarrow> Some (Inl e)
                | Some (Inr net') \<Rightarrow> loop net' converge IteCou tolerance
           else Some (Inr net)) = Some y"
    show "\<not> (links net = [] \<and> tolerance < converge)"
    proof
      assume a: "links net = [] \<and> tolerance < converge"
      with body have "loop net converge IteCou tolerance = Some y"
        by simp
      from IH [OF this] a show False
        by simp
    qed
  qed
  with assms show False
    by simp
qed

text \<open>
  Claim C2 says that UE terminates on every network and tolerance, by a bound on the
  number of iterations. UE has no such bound and reports no non-convergence: the only
  exit of the loop is the test \<open>converge > tolerance\<close>. Amended claim C2: the loop of UE
  stops when the convergence metric is not above the tolerance, and nothing else bounds
  it; on a network without links and OD pairs, where the metric keeps its initial value
  5, UE returns at once (the network unchanged) when the tolerance is at least 5, and
  never returns when the tolerance is below 5.
\<close>

theorem UE_no_links:
  assumes "links net = []" and "ODpairs net = []"
  shows "UE net tolerance = (if tolerance < 5 then None else Some (Inr net))"
proof (cases "tolerance < 5")
  case True
  then have "UE_loop net 5 1 tolerance = None"
    using assms(1) by (intro UE_loop_no_links) simp_all
  with True assms show ?thesis
    by (simp add: UE_def AON_def)
next
  case False
  then have "UE_loop net 5 1 tolerance = Some (Inr net)"
    by (subst UE_loop.simps) simp
  with False assms show ?thesis
    by (simp add: UE_def AON_def)
qed

theorem UE_no_links_witness:
  "UE Network_init 5 = Some (Inr Network_init) \<and> UE Network_init 4 = None"
  using UE_no_links [of Network_init 5] UE_no_links [of Network_init 4]
  by (simp add: Network_init_def)

text \<open>The counterexample: UE with the default tolerance on the empty placeholder network.\<close>

theorem UE_unbounded_counterexample: "UE Network_init (1 / 100) = None"
proof -
  have "UE_loop Network_init 5 1 (1 / 100) = None"
    by (rule UE_loop_no_links) (simp_all add: Network_init_def)
  then show ?thesis
    by (simp add: UE_def AON_def Network_init_def)
qed


end
